theory Spec2Isabelle
  imports Complex_Main "HOL-Library.Log_Nat"
begin

section \<open>Utilities of \<^verbatim>\<open>public/app.js\<close>\<close>

text \<open>
  JavaScript numbers are double precision floating point numbers. They are modelled as
  \<open>int\<close> where the code only ever produces integers (seconds, millisecond timestamps,
  the generation counter as \<open>nat\<close>): these stay far below \<open>2^53\<close>, where the
  arithmetic of doubles is exact. The value of \<open>Math.random()\<close> and its product with
  the size of the window are doubles, modelled as the \<open>real\<close> numbers they denote,
  the product rounded as the machine rounds it. The quotients under \<open>Math.ceil\<close>,
  \<open>Math.floor\<close> and \<open>Math.round\<close> are taken exactly: their divisors are 1000 and
  60, and for integers of the size that occurs here, rounding such a quotient to a
  double moves it across no integer and no half. The progress percentage is kept as the
  exact quotient, which the code rounds to a double before it writes it.
\<close>

text \<open>\<^verbatim>\<open>const clamp = (n, a, b) => Math.max(a, Math.min(b, n));\<close>\<close>

definition clamp :: "'a::linorder \<Rightarrow> 'a \<Rightarrow> 'a \<Rightarrow> 'a" where
  "clamp n a b = max a (min b n)"

text \<open>
  Rounding to the nearest integer, a tie going to the even one: the rounding of IEEE 754
  arithmetic.
\<close>

definition roundEven :: "real \<Rightarrow> int" where
  "roundEven r =
     (let f = \<lfloor>r\<rfloor>; d = r - real_of_int f
      in if d < 1 / 2 then f else if 1 / 2 < d then f + 1 else if even f then f else f + 1)"

text \<open>
  The number nearest to \<open>x\<close> in a binary format with \<open>prec\<close> significant bits whose
  least positive number is \<open>2\<close> to the power \<open>- emin\<close>: \<open>x\<close> is counted in units
  of that least number; what exceeds \<open>prec\<close> bits is rounded away. A double has 53
  significant bits and the least positive double is \<open>2\<close> to the power \<open>- 1074\<close>.
  Overflow is left out: the numbers rounded here are below \<open>2^53\<close>.
\<close>

definition toBinary :: "nat \<Rightarrow> nat \<Rightarrow> real \<Rightarrow> real" where
  "toBinary prec emin x =
     (let y = x * 2 ^ emin; sh = nat (bitlen \<lfloor>\<bar>y\<bar>\<rfloor> - int prec)
      in real_of_int (roundEven (y / 2 ^ sh)) * 2 ^ sh / 2 ^ emin)"

definition toDouble :: "real \<Rightarrow> real" where
  "toDouble x = toBinary 53 1074 x"

text \<open>
  \<^verbatim>\<open>const randInt = (min, max) => Math.floor(Math.random() * (max - min + 1)) + min;\<close>
  The value returned by \<open>Math.random()\<close> is the extra argument \<open>u\<close>, a double with
  \<open>0 \<le> u < 1\<close>. The product is the exact product rounded to a double; the sum and
  the difference are of integers and exact.
\<close>

definition randInt :: "int \<Rightarrow> int \<Rightarrow> real \<Rightarrow> int" where
  "randInt mn mx u = \<lfloor>toDouble (u * real_of_int (mx - mn + 1))\<rfloor> + mn"


text \<open>Template literals print a non-negative integer in decimal, a negative one with a sign.\<close>

fun showNat :: "nat \<Rightarrow> string" where
  "showNat n =
     (if n < 10 then [''0123456789'' ! n]
      else showNat (n div 10) @ [''0123456789'' ! (n mod 10)])"

declare showNat.simps [simp del]

definition showInt :: "int \<Rightarrow> string" where
  "showInt i = (if i < 0 then ''-'' @ showNat (nat (- i)) else showNat (nat i))"

text \<open>The two dashes of the source are not ASCII; they are kept as their UTF-8 bytes.\<close>

definition enDash :: string where
  "enDash = [CHR 0xE2, CHR 0x80, CHR 0x93]"

definition emDash :: string where
  "emDash = [CHR 0xE2, CHR 0x80, CHR 0x94]"

text \<open>\<open>Math.round\<close> rounds a half towards plus infinity.\<close>

definition mathRound :: "real \<Rightarrow> int" where
  "mathRound x = \<lfloor>x + 1 / 2\<rfloor>"

definition fmtWindow :: "int \<Rightarrow> int \<Rightarrow> string" where
  "fmtWindow minS maxS =
     showInt (mathRound (real_of_int minS / 60)) @ enDash @
     showInt (mathRound (real_of_int maxS / 60)) @ '' min''"

definition fmtCountdown :: "int option \<Rightarrow> string" where
  "fmtCountdown msLeft =
     (case msLeft of
        None \<Rightarrow> emDash
      | Some ms \<Rightarrow>
          (let s = max 0 \<lceil>real_of_int ms / 1000\<rceil>;
               m = s div 60;
               r = s mod 60
           in if m > 0 then showInt m @ ''m '' @ showInt r @ ''s'' else showInt r @ ''s''))"

definition fmtAgo :: "int option \<Rightarrow> string" where
  "fmtAgo msAgo =
     (case msAgo of
        None \<Rightarrow> emDash
      | Some ms \<Rightarrow>
          (let s = \<lfloor>real_of_int ms / 1000\<rfloor>
           in if s < 60 then showInt s @ ''s ago''
              else (let m = s div 60; r = s mod 60
                    in showInt m @ ''m '' @ showInt r @ ''s ago'')))"

section \<open>The widget and its environment\<close>

text \<open>
  A pending native timer is either the one-shot timeout armed by \<open>scheduleNext\<close>, with
  its due time and the generation its closure captured (\<open>myGen\<close>), or the repeating
  interval that runs \<open>updateUI\<close>.
\<close>

datatype task = Timeout int nat | Interval

text \<open>An asynchronous function suspended at \<^verbatim>\<open>await audio.play()\<close>.\<close>

datatype pending = SchedPlay nat | ManualPlay

datatype playKind = Scheduled | Manual

text \<open>How the promise returned by \<open>audio.play()\<close> settles; a rejection carries its error.\<close>

datatype outcome = Fulfilled | Rejected string

text \<open>
  The state is the closure of \<open>wire\<close> (the \<^verbatim>\<open>let\<close> variables), the elements of the
  container it writes to (\<open>None\<close> when \<open>querySelector\<close> found nothing), the shared
  \<open>audio\<close> element, and the host: the clock read by \<open>Date.now()\<close>, the table of active
  timers with the next handle to hand out, the suspended asynchronous calls, and two
  logs, of the calls of \<open>audio.play()\<close> and of \<open>console.warn\<close>.
\<close>

record state =
  minSec :: int
  maxSec :: int
  running :: bool
  scheduledAt :: int
  fireAt :: int
  timeoutId :: "nat option"
  uiIntervalId :: "nat option"
  lastRandomAt :: "int option"
  gen :: nat
  sound :: string
  soundHref :: string
  btnStart :: "(string \<times> string) option"
  elWindow :: "string option"
  elLast :: "string option"
  elNext :: "string option"
  elProgress :: "real option"
  audioPaused :: bool
  audioCurrentTime :: real
  audioSrc :: string
  audioLoop :: bool
  clock :: int
  nextId :: nat
  timers :: "(nat \<times> task) list"
  awaiting :: "pending list"
  playLog :: "playKind list"
  warnings :: "(string \<times> string) list"

text \<open>A handle is truthy when it is neither \<open>null\<close> nor \<open>0\<close>.\<close>

definition truthyId :: "nat option \<Rightarrow> bool" where
  "truthyId h = (case h of None \<Rightarrow> False | Some i \<Rightarrow> i \<noteq> 0)"

text \<open>\<open>clearTimeout\<close> and \<open>clearInterval\<close> remove the handle from the table of timers.\<close>

definition clearTimer :: "nat option \<Rightarrow> (nat \<times> task) list \<Rightarrow> (nat \<times> task) list" where
  "clearTimer h ts = filter (\<lambda>p. Some (fst p) \<noteq> h) ts"

subsection \<open>UI helpers\<close>

definition setStartLabel :: "state \<Rightarrow> state" where
  "setStartLabel s =
     s\<lparr>btnStart :=
         map_option (\<lambda>_. (if running s then ''Stop'' else ''Start'',
                          if running s then ''true'' else ''false'')) (btnStart s)\<rparr>"

text \<open>
  \<open>setProgress\<close> writes the width of the progress bar; the model keeps the number in
  front of the percent sign.
\<close>

definition setProgress :: "real \<Rightarrow> state \<Rightarrow> state" where
  "setProgress pct s = s\<lparr>elProgress := map_option (\<lambda>_. clamp pct 0 100) (elProgress s)\<rparr>"

definition updateUI :: "state \<Rightarrow> state" where
  "updateUI s =
     (let s1 = s\<lparr>elWindow := map_option (\<lambda>_. fmtWindow (minSec s) (maxSec s)) (elWindow s)\<rparr>;
          s2 = s1\<lparr>elLast :=
                    map_option
                      (\<lambda>_. case lastRandomAt s1 of
                              None \<Rightarrow> emDash
                            | Some t \<Rightarrow> if t \<noteq> 0 then fmtAgo (Some (clock s1 - t)) else emDash)
                      (elLast s1)\<rparr>
      in if \<not> running s2 \<or> fireAt s2 = 0 \<or> scheduledAt s2 = 0
         then setProgress 0 (s2\<lparr>elNext := map_option (\<lambda>_. emDash) (elNext s2)\<rparr>)
         else
           (let now = clock s2;
                msLeft = fireAt s2 - now;
                s3 = s2\<lparr>elNext := map_option (\<lambda>_. fmtCountdown (Some msLeft)) (elNext s2)\<rparr>;
                total = max 1 (fireAt s3 - scheduledAt s3);
                elapsed = clamp (now - scheduledAt s3) 0 total
            in setProgress (real_of_int elapsed / real_of_int total * 100) s3))"

definition startUiLoop :: "state \<Rightarrow> state" where
  "startUiLoop s =
     (let s1 = (if truthyId (uiIntervalId s)
                then s\<lparr>timers := clearTimer (uiIntervalId s) (timers s)\<rparr> else s);
          i = nextId s1
      in s1\<lparr>uiIntervalId := Some i, timers := timers s1 @ [(i, Interval)], nextId := i + 1\<rparr>)"

definition stopUiLoop :: "state \<Rightarrow> state" where
  "stopUiLoop s =
     (let s1 = (if truthyId (uiIntervalId s)
                then s\<lparr>timers := clearTimer (uiIntervalId s) (timers s)\<rparr> else s)
      in s1\<lparr>uiIntervalId := None\<rparr>)"

subsection \<open>Scheduling\<close>

definition clearSchedule :: "state \<Rightarrow> state" where
  "clearSchedule s =
     (let s1 = s\<lparr>gen := gen s + 1\<rparr>;
          s2 = (if truthyId (timeoutId s1)
                then s1\<lparr>timers := clearTimer (timeoutId s1) (timers s1), timeoutId := None\<rparr>
                else s1)
      in s2\<lparr>scheduledAt := 0, fireAt := 0\<rparr>)"

text \<open>
  \<open>scheduleNext\<close> draws the delay, records the schedule and hands the callback to
  \<open>setTimeout\<close>: the new entry of the timer table holds the due time and the captured
  generation. The parameter \<open>resetTimer\<close> selects an empty block in the source.
\<close>

definition scheduleNext :: "bool \<Rightarrow> real \<Rightarrow> state \<Rightarrow> state" where
  "scheduleNext resetTimer u s =
     (if \<not> running s then s
      else
        (let s1 = clearSchedule s;
             delaySec = randInt (minSec s1) (maxSec s1) u;
             now = clock s1;
             s2 = s1\<lparr>scheduledAt := now, fireAt := now + delaySec * 1000\<rparr>;
             myGen = gen s2;
             i = nextId s2
         in s2\<lparr>timeoutId := Some i,
                timers := timers s2 @ [(i, Timeout (clock s2 + delaySec * 1000) myGen)],
                nextId := i + 1\<rparr>))"

text \<open>
  The part of \<open>playScheduledOnce\<close> and of \<open>playNowOnly\<close> up to the call of
  \<open>audio.play()\<close>, which both share; the caller is then suspended.
\<close>

definition audioRestart :: "playKind \<Rightarrow> state \<Rightarrow> state" where
  "audioRestart k s =
     (let s1 = s\<lparr>audioPaused := True, audioCurrentTime := 0\<rparr>;
          s2 = (if audioSrc s1 \<noteq> soundHref s1 then s1\<lparr>audioSrc := soundHref s1\<rparr> else s1);
          s3 = s2\<lparr>audioLoop := False\<rparr>
      in s3\<lparr>audioPaused := False, playLog := playLog s3 @ [k]\<rparr>)"

definition playScheduledOnce :: "nat \<Rightarrow> state \<Rightarrow> state" where
  "playScheduledOnce myGen s =
     (let s1 = audioRestart Scheduled s in s1\<lparr>awaiting := awaiting s1 @ [SchedPlay myGen]\<rparr>)"

text \<open>
  The rest of \<open>playScheduledOnce\<close>, run when the promise settles: the \<^verbatim>\<open>try\<close> block
  goes on to record the time, the \<^verbatim>\<open>catch\<close> block logs the error. Either way the
  function returns normally.
\<close>

definition playScheduledOnceSettled :: "outcome \<Rightarrow> state \<Rightarrow> state" where
  "playScheduledOnceSettled out s =
     (case out of
        Fulfilled \<Rightarrow> s\<lparr>lastRandomAt := Some (clock s)\<rparr>
      | Rejected e \<Rightarrow> s\<lparr>warnings := warnings s @ [(''Scheduled play failed:'', e)]\<rparr>)"

definition playNowOnly :: "state \<Rightarrow> state" where
  "playNowOnly s =
     (let s1 = audioRestart Manual s in s1\<lparr>awaiting := awaiting s1 @ [ManualPlay]\<rparr>)"

definition playNowOnlySettled :: "outcome \<Rightarrow> state \<Rightarrow> state" where
  "playNowOnlySettled out s =
     (case out of
        Fulfilled \<Rightarrow> s
      | Rejected e \<Rightarrow> s\<lparr>warnings := warnings s @ [(''Play Now failed:'', e)]\<rparr>)"

text \<open>
  The callback given to \<open>setTimeout\<close>, with the generation it captured: first the part
  that runs when the timer fires, then the part after \<^verbatim>\<open>await playScheduledOnce()\<close>.
\<close>

definition timeoutCallback :: "nat \<Rightarrow> state \<Rightarrow> state" where
  "timeoutCallback myGen s =
     (if \<not> running s \<or> myGen \<noteq> gen s then s else playScheduledOnce myGen s)"

definition timeoutCallbackResumed :: "nat \<Rightarrow> outcome \<Rightarrow> real \<Rightarrow> state \<Rightarrow> state" where
  "timeoutCallbackResumed myGen out u s =
     (let s1 = playScheduledOnceSettled out s
      in if running s1 \<and> myGen = gen s1 then scheduleNext False u s1 else s1)"

subsection \<open>Controls\<close>

definition start :: "real \<Rightarrow> state \<Rightarrow> state" where
  "start u s = updateUI (scheduleNext True u (startUiLoop (setStartLabel (s\<lparr>running := True\<rparr>))))"

definition stop :: "state \<Rightarrow> state" where
  "stop s = updateUI (stopUiLoop (clearSchedule (setStartLabel (s\<lparr>running := False\<rparr>))))"

definition toggle :: "real \<Rightarrow> state \<Rightarrow> state" where
  "toggle u s = (if running s then stop s else start u s)"

definition expandWindow :: "real \<Rightarrow> state \<Rightarrow> state" where
  "expandWindow u s =
     (let s1 = s\<lparr>minSec := clamp (minSec s + 60) 30 (60 * 60)\<rparr>;
          s2 = s1\<lparr>maxSec := clamp (maxSec s1 + 60) (minSec s1 + 30) (60 * 60 * 2)\<rparr>;
          s3 = (if running s2 then scheduleNext True u s2 else s2)
      in updateUI s3)"

definition shrinkWindow :: "real \<Rightarrow> state \<Rightarrow> state" where
  "shrinkWindow u s =
     (let s1 = s\<lparr>minSec := clamp (minSec s - 60) 30 (60 * 60)\<rparr>;
          s2 = s1\<lparr>maxSec := clamp (maxSec s1 - 60) (minSec s1 + 30) (60 * 60 * 2)\<rparr>;
          s3 = (if running s2 then scheduleNext True u s2 else s2)
      in updateUI s3)"

subsection \<open>Wiring and the event loop\<close>

text \<open>
  What \<open>wire\<close> reads from the container: the \<open>wired\<close> mark, the \<open>data-sound\<close>
  attribute with the absolute URL the host resolves it to, and which of the elements it
  looks up exist.
\<close>

record container =
  wired :: bool
  dataSound :: string
  dataSoundHref :: string
  hasStart :: bool
  hasWindow :: bool
  hasLast :: bool
  hasNext :: bool
  hasProgress :: bool

definition presentElem :: "bool \<Rightarrow> 'a \<Rightarrow> 'a option" where
  "presentElem b x = (if b then Some x else None)"

text \<open>The closure as \<open>wire\<close> declares it, before the first \<open>setStartLabel\<close> and \<open>updateUI\<close>.\<close>

definition declared :: "container \<Rightarrow> int \<Rightarrow> state" where
  "declared c now =
     \<lparr>minSec = 60, maxSec = 300, running = False, scheduledAt = 0, fireAt = 0,
      timeoutId = None, uiIntervalId = None, lastRandomAt = None, gen = 0,
      sound = dataSound c, soundHref = dataSoundHref c,
      btnStart = presentElem (hasStart c) ([], []),
      elWindow = presentElem (hasWindow c) [],
      elLast = presentElem (hasLast c) [],
      elNext = presentElem (hasNext c) [],
      elProgress = presentElem (hasProgress c) 0,
      audioPaused = True, audioCurrentTime = 0, audioSrc = [], audioLoop = False,
      clock = now, nextId = 1, timers = [], awaiting = [], playLog = [],
      warnings = []\<rparr>"

text \<open>The state in which \<open>wire\<close> leaves a container that it does wire.\<close>

definition initialState :: "container \<Rightarrow> int \<Rightarrow> state" where
  "initialState c now = updateUI (setStartLabel (declared c now))"

definition wire :: "container \<Rightarrow> int \<Rightarrow> state option" where
  "wire c now =
     (if wired c then None
      else if dataSound c = [] then None
      else Some (initialState c now))"

text \<open>
  The single-threaded event loop. Each event runs one handler to its next suspension:
  a click on one of the four buttons (with the value \<open>Math.random()\<close> returns, should
  the handler arm a schedule), the passing of time, a native timer firing (a timeout
  only once it is due, and it then leaves the table; the interval whenever the host
  chooses), the settling of the play promise of the \<open>n\<close>-th suspended call, and
  \<open>pagehide\<close>. A click is taken even where the container lacks the button, so the
  runs of the model include the runs of every container.
\<close>

datatype event =
    ClickArm real
  | ClickPlayNow
  | ClickExpand real
  | ClickShrink real
  | Advance nat
  | Fire nat
  | Settle nat outcome real
  | PageHide

definition fire :: "nat \<Rightarrow> state \<Rightarrow> state" where
  "fire i s =
     (case map_of (timers s) i of
        None \<Rightarrow> s
      | Some Interval \<Rightarrow> updateUI s
      | Some (Timeout due myGen) \<Rightarrow>
          if due \<le> clock s
          then timeoutCallback myGen (s\<lparr>timers := clearTimer (Some i) (timers s)\<rparr>)
          else s)"

definition settle :: "nat \<Rightarrow> outcome \<Rightarrow> real \<Rightarrow> state \<Rightarrow> state" where
  "settle n out u s =
     (if n < length (awaiting s)
      then
        (let s1 = s\<lparr>awaiting := take n (awaiting s) @ drop (Suc n) (awaiting s)\<rparr>
         in case awaiting s ! n of
              SchedPlay myGen \<Rightarrow> timeoutCallbackResumed myGen out u s1
            | ManualPlay \<Rightarrow> playNowOnlySettled out s1)
      else s)"

fun step :: "event \<Rightarrow> state \<Rightarrow> state" where
  "step (ClickArm u) s = toggle u s"
| "step ClickPlayNow s = playNowOnly s"
| "step (ClickExpand u) s = expandWindow u s"
| "step (ClickShrink u) s = shrinkWindow u s"
| "step (Advance d) s = s\<lparr>clock := clock s + int d\<rparr>"
| "step (Fire i) s = fire i s"
| "step (Settle n out u) s = settle n out u s"
| "step PageHide s = (stop s)\<lparr>audioPaused := True\<rparr>"

fun run :: "event list \<Rightarrow> state \<Rightarrow> state" where
  "run [] s = s"
| "run (e # es) s = run es (step e s)"

section \<open>Notions used to state the properties\<close>

text \<open>A container with every element present, for concrete runs.\<close>

definition demoContainer :: container where
  "demoContainer =
     \<lparr>wired = False, dataSound = ''frog.mp3'', dataSoundHref = ''http://host/frog.mp3'',
      hasStart = True, hasWindow = True, hasLast = True, hasNext = True,
      hasProgress = True\<rparr>"

definition window :: "state \<Rightarrow> int \<times> int" where
  "window s = (minSec s, maxSec s)"

definition windowOk :: "state \<Rightarrow> bool" where
  "windowOk s = (30 \<le> minSec s \<and> minSec s + 30 \<le> maxSec s \<and> maxSec s \<le> 7200)"


text \<open>The timeouts that the host still holds: the armed schedules.\<close>

definition isTimeout :: "nat \<times> task \<Rightarrow> bool" where
  "isTimeout p = (case snd p of Timeout due g \<Rightarrow> True | Interval \<Rightarrow> False)"

definition pendingTimeouts :: "state \<Rightarrow> (nat \<times> task) list" where
  "pendingTimeouts s = filter isTimeout (timers s)"

text \<open>
  Every pending timeout is the one \<open>timeoutId\<close> names (handles are positive, so the
  test \<^verbatim>\<open>if (timeoutId)\<close> sees it).
\<close>

definition ownedTimeouts :: "state \<Rightarrow> bool" where
  "ownedTimeouts s =
     (0 < nextId s \<and> (\<forall>p \<in> set (timers s). 0 < fst p) \<and>
      (\<forall>p \<in> set (pendingTimeouts s). timeoutId s = Some (fst p)))"

text \<open>
  At most one timeout is pending; it is the one \<open>timeoutId\<close> names, the widget is
  running, and its callback captured the current generation.
\<close>

definition scheduleInv :: "state \<Rightarrow> bool" where
  "scheduleInv s =
     (0 < nextId s \<and> (\<forall>p \<in> set (timers s). 0 < fst p) \<and>
      length (pendingTimeouts s) \<le> 1 \<and>
      (\<forall>p \<in> set (pendingTimeouts s).
         timeoutId s = Some (fst p) \<and> running s \<and> (\<exists>due. snd p = Timeout due (gen s))))"

text \<open>The number of times a scheduled callback has called \<open>audio.play()\<close>.\<close>

definition scheduledPlays :: "state \<Rightarrow> nat" where
  "scheduledPlays s = length (filter (\<lambda>k. k = Scheduled) (playLog s))"

text \<open>The only event that can call \<open>start\<close> is a click on the start/stop button.\<close>

fun isArm :: "event \<Rightarrow> bool" where
  "isArm (ClickArm u) = True"
| "isArm e = False"

text \<open>The schedule, the window, the run state and the time of the last scheduled play.\<close>

definition scheduleVars ::
  "state \<Rightarrow> int \<times> int \<times> nat \<times> int \<times> int \<times> bool \<times> int option" where
  "scheduleVars s =
     (scheduledAt s, fireAt s, gen s, minSec s, maxSec s, running s, lastRandomAt s)"

text \<open>The handles of the closure and what the host holds for them.\<close>

definition timerVars :: "state \<Rightarrow> nat option \<times> nat option \<times> (nat \<times> task) list \<times> nat" where
  "timerVars s = (timeoutId s, uiIntervalId s, timers s, nextId s)"

text \<open>What the container shows.\<close>

definition display ::
  "state \<Rightarrow> (string \<times> string) option \<times> string option \<times> string option \<times> string option \<times> real option" where
  "display s = (btnStart s, elWindow s, elLast s, elNext s, elProgress s)"

text \<open>
  The countdown in the words of the specification: the remaining time floored to whole
  seconds, with minutes when at least one whole minute remains.
\<close>

definition countdownFloored :: "int \<Rightarrow> string" where
  "countdownFloored ms =
     (let s = \<lfloor>real_of_int ms / 1000\<rfloor>
      in if 60 \<le> s then showInt (s div 60) @ ''m '' @ showInt (s mod 60) @ ''s''
         else showInt s @ ''s'')"

text \<open>The whole seconds the code counts: rounded up, and never below zero.\<close>

definition secondsShown :: "int \<Rightarrow> int" where
  "secondsShown ms = max 0 \<lceil>real_of_int ms / 1000\<rceil>"

definition countdownText :: "int \<Rightarrow> string" where
  "countdownText secs =
     (if 60 \<le> secs then showInt (secs div 60) @ ''m '' @ showInt (secs mod 60) @ ''s''
      else showInt secs @ ''s'')"

text \<open>The progress a refresh tick at time \<open>t\<close> displays, and the formula of the specification.\<close>

definition progressAt :: "state \<Rightarrow> int \<Rightarrow> real option" where
  "progressAt s t = elProgress (updateUI (s\<lparr>clock := t\<rparr>))"

definition progressSpec :: "int \<Rightarrow> int \<Rightarrow> int \<Rightarrow> real" where
  "progressSpec sAt fAt now =
     clamp (real_of_int (now - sAt) / real_of_int (fAt - sAt)) 0 1 * 100"

text \<open>
  \<open>s'\<close> differs from \<open>s\<close> at most in the window and in the four elements that
  \<open>updateUI\<close> writes.
\<close>

definition untouchedBeyondWindow :: "state \<Rightarrow> state \<Rightarrow> bool" where
  "untouchedBeyondWindow s s' =
     (s'\<lparr>minSec := minSec s, maxSec := maxSec s, elWindow := elWindow s, elLast := elLast s,
         elNext := elNext s, elProgress := elProgress s\<rparr> = s)"

text \<open>
  A chain of scheduled plays is alive in a pending timeout or in a callback that is
  suspended at the play promise and captured the current generation: these are the
  callbacks that can still play or arm.
\<close>

definition currentAwaiting :: "state \<Rightarrow> pending list" where
  "currentAwaiting s = filter (\<lambda>p. p = SchedPlay (gen s)) (awaiting s)"

definition liveChains :: "state \<Rightarrow> nat" where
  "liveChains s = length (pendingTimeouts s) + length (currentAwaiting s)"

definition chainInv :: "state \<Rightarrow> bool" where
  "chainInv s =
     (scheduleInv s \<and> (\<forall>p \<in> set (awaiting s). \<forall>g. p = SchedPlay g \<longrightarrow> g \<le> gen s) \<and>
      liveChains s \<le> 1)"

section \<open>Rounding to a double\<close>

lemma roundEven_of_int [simp]: "roundEven (real_of_int k) = k"
  by (simp add: roundEven_def)






lemma toBinary_unfold:
  assumes "0 \<le> x"
  shows "toBinary prec emin x =
     real_of_int (roundEven (x * 2 ^ emin / 2 ^ nat (bitlen \<lfloor>x * 2 ^ emin\<rfloor> - int prec))) *
       2 ^ nat (bitlen \<lfloor>x * 2 ^ emin\<rfloor> - int prec) / 2 ^ emin"
  using assms by (simp add: toBinary_def Let_def)





text \<open>Rounding a quotient of an integer by a power of two.\<close>

lemma toBinary_exact:
  assumes "0 \<le> p" "p < 2 ^ prec" "k \<le> emin"
  shows "toBinary prec emin (real_of_int p / 2 ^ k) = real_of_int p / 2 ^ k"
proof -
  define y where "y = real_of_int p / 2 ^ k * 2 ^ emin"
  define sh where "sh = nat (bitlen \<lfloor>y\<rfloor> - int prec)"
  have e: "(2::real) ^ emin = 2 ^ (emin - k) * 2 ^ k"
    using assms(3) by (simp add: power_add [symmetric])
  have y: "y = real_of_int (p * 2 ^ (emin - k))"
    by (simp add: y_def e)
  then have fl: "\<lfloor>y\<rfloor> = p * 2 ^ (emin - k)"
    by (simp only: floor_of_int)
  have "bitlen p \<le> int prec"
    using assms(2) by (simp add: bitlen_le_iff_power)
  have sh: "sh \<le> emin - k"
  proof (cases "p = 0")
    case True
    then show ?thesis by (simp add: sh_def fl)
  next
    case False
    with assms(1) have "0 < p" by simp
    then have "bitlen \<lfloor>y\<rfloor> = bitlen p + int (emin - k)"
      unfolding fl by (rule bitlen_pow2)
    with \<open>bitlen p \<le> int prec\<close> show ?thesis by (simp add: sh_def)
  qed
  then have e2: "(2::int) ^ (emin - k) = 2 ^ (emin - k - sh) * 2 ^ sh"
    by (simp add: power_add [symmetric])
  have "y / 2 ^ sh = real_of_int (p * 2 ^ (emin - k - sh))"
    unfolding y e2 by simp
  then have "roundEven (y / 2 ^ sh) = p * 2 ^ (emin - k - sh)"
    by (simp only: roundEven_of_int)
  then have unscaled: "real_of_int (roundEven (y / 2 ^ sh)) * 2 ^ sh = y"
    unfolding y e2 by simp
  have "0 \<le> real_of_int p / 2 ^ k" using assms(1) by simp
  then have "toBinary prec emin (real_of_int p / 2 ^ k) =
      real_of_int (roundEven (y / 2 ^ sh)) * 2 ^ sh / 2 ^ emin"
    by (simp add: toBinary_unfold y_def sh_def)
  also have "\<dots> = y / 2 ^ emin"
    by (simp only: unscaled)
  also have "\<dots> = real_of_int p / 2 ^ k"
    by (simp add: y_def)
  finally show ?thesis .
qed


lemma toDouble_exact:
  assumes "0 \<le> p" "p < 9007199254740992" "k \<le> 1074"
  shows "toDouble (real_of_int p / 2 ^ k) = real_of_int p / 2 ^ k"
  unfolding toDouble_def using assms by (intro toBinary_exact) simp_all







lemma toDouble_values:
  "toDouble 0 = 0" "toDouble (1 / 2) = 1 / 2" "toDouble (1 / 4) = 1 / 4"
  "toDouble (241 / 2) = 241 / 2" "toDouble (241 / 4) = 241 / 4"
  using toDouble_exact [of 0 0] toDouble_exact [of 1 1] toDouble_exact [of 1 2]
    toDouble_exact [of 241 1] toDouble_exact [of 241 2]
  by simp_all

lemma randInt_values:
  "randInt 60 300 (1 / 2) = 180" "randInt 60 300 (1 / 4) = 120"
  "randInt 120 360 (1 / 4) = 180"
  by (simp_all add: randInt_def toDouble_values)


section \<open>Frame lemmas\<close>

lemmas ui_defs = updateUI_def setProgress_def setStartLabel_def
lemmas loop_defs = startUiLoop_def stopUiLoop_def
lemmas sched_defs = clearSchedule_def scheduleNext_def
lemmas play_defs = audioRestart_def playScheduledOnce_def playScheduledOnceSettled_def
  playNowOnly_def playNowOnlySettled_def timeoutCallback_def timeoutCallbackResumed_def
lemmas control_defs = start_def stop_def toggle_def expandWindow_def shrinkWindow_def

lemma wire_initialState: "wire c now = Some s \<Longrightarrow> s = initialState c now"
  by (simp add: wire_def split: if_splits)

lemma updateUI_frame [simp]:
  "minSec (updateUI s) = minSec s" "maxSec (updateUI s) = maxSec s"
  "running (updateUI s) = running s" "scheduledAt (updateUI s) = scheduledAt s"
  "fireAt (updateUI s) = fireAt s" "timeoutId (updateUI s) = timeoutId s"
  "uiIntervalId (updateUI s) = uiIntervalId s" "lastRandomAt (updateUI s) = lastRandomAt s"
  "gen (updateUI s) = gen s" "clock (updateUI s) = clock s" "nextId (updateUI s) = nextId s"
  "timers (updateUI s) = timers s" "awaiting (updateUI s) = awaiting s"
  "playLog (updateUI s) = playLog s" "warnings (updateUI s) = warnings s"
  "btnStart (updateUI s) = btnStart s"
  by (simp_all add: ui_defs Let_def)

lemma setStartLabel_frame [simp]:
  "minSec (setStartLabel s) = minSec s" "maxSec (setStartLabel s) = maxSec s"
  "running (setStartLabel s) = running s" "scheduledAt (setStartLabel s) = scheduledAt s"
  "fireAt (setStartLabel s) = fireAt s" "timeoutId (setStartLabel s) = timeoutId s"
  "uiIntervalId (setStartLabel s) = uiIntervalId s"
  "lastRandomAt (setStartLabel s) = lastRandomAt s"
  "gen (setStartLabel s) = gen s" "clock (setStartLabel s) = clock s"
  "nextId (setStartLabel s) = nextId s"
  "timers (setStartLabel s) = timers s" "awaiting (setStartLabel s) = awaiting s"
  "playLog (setStartLabel s) = playLog s" "warnings (setStartLabel s) = warnings s"
  "elWindow (setStartLabel s) = elWindow s" "elLast (setStartLabel s) = elLast s"
  "elNext (setStartLabel s) = elNext s" "elProgress (setStartLabel s) = elProgress s"
  by (simp_all add: ui_defs)

lemma pendingTimeouts_frame [simp]:
  "pendingTimeouts (updateUI s) = pendingTimeouts s"
  "pendingTimeouts (setStartLabel s) = pendingTimeouts s"
  by (simp_all add: pendingTimeouts_def)

subsection \<open>One timeout at a time\<close>

lemma scheduleInv_cong:
  assumes "timers s' = timers s" "timeoutId s' = timeoutId s" "gen s' = gen s"
    "running s' = running s" "nextId s' = nextId s"
  shows "scheduleInv s' = scheduleInv s"
  using assms by (simp add: scheduleInv_def pendingTimeouts_def)

lemma pendingTimeouts_clearTimer:
  "filter isTimeout (clearTimer h ts) = clearTimer h (filter isTimeout ts)"
  by (induction ts) (auto simp: clearTimer_def)

lemma clearTimer_member: "p \<in> set (clearTimer h ts) \<Longrightarrow> p \<in> set ts"
  by (simp add: clearTimer_def)

lemma length_clearTimer: "length (clearTimer h ts) \<le> length ts"
  by (simp add: clearTimer_def)

lemma clearTimer_owned:
  assumes "\<forall>p \<in> set ts. h = Some (fst p)"
  shows "clearTimer h ts = []"
  using assms by (induction ts) (auto simp: clearTimer_def)

lemma scheduleInv_owned: "scheduleInv s \<Longrightarrow> ownedTimeouts s"
  by (simp add: scheduleInv_def ownedTimeouts_def)

lemma clearSchedule_pending_eq:
  "pendingTimeouts (clearSchedule s) =
     (if truthyId (timeoutId s) then clearTimer (timeoutId s) (pendingTimeouts s)
      else pendingTimeouts s)"
  by (simp add: clearSchedule_def pendingTimeouts_def Let_def pendingTimeouts_clearTimer)

lemma clearSchedule_pending:
  assumes "ownedTimeouts s"
  shows "pendingTimeouts (clearSchedule s) = []"
proof (cases "pendingTimeouts s")
  case Nil
  then show ?thesis
    by (simp add: clearSchedule_pending_eq clearTimer_def)
next
  case (Cons p ps)
  then have p: "p \<in> set (pendingTimeouts s)"
    by simp
  then have "p \<in> set (timers s)"
    by (simp add: pendingTimeouts_def)
  with p assms have "timeoutId s = Some (fst p)" "0 < fst p"
    by (auto simp: ownedTimeouts_def)
  then have t: "truthyId (timeoutId s)"
    by (simp add: truthyId_def)
  from assms have "\<forall>p \<in> set (pendingTimeouts s). timeoutId s = Some (fst p)"
    by (simp add: ownedTimeouts_def)
  then have "clearTimer (timeoutId s) (pendingTimeouts s) = []"
    by (rule clearTimer_owned)
  with t show ?thesis
    by (simp add: clearSchedule_pending_eq)
qed

lemma clearSchedule_frame [simp]:
  "minSec (clearSchedule s) = minSec s" "maxSec (clearSchedule s) = maxSec s"
  "running (clearSchedule s) = running s" "gen (clearSchedule s) = gen s + 1"
  "scheduledAt (clearSchedule s) = 0" "fireAt (clearSchedule s) = 0"
  "uiIntervalId (clearSchedule s) = uiIntervalId s"
  "lastRandomAt (clearSchedule s) = lastRandomAt s"
  "clock (clearSchedule s) = clock s" "nextId (clearSchedule s) = nextId s"
  "awaiting (clearSchedule s) = awaiting s"
  "playLog (clearSchedule s) = playLog s" "warnings (clearSchedule s) = warnings s"
  by (simp_all add: clearSchedule_def Let_def)

lemma clearTimer_subset: "set (clearTimer h ts) \<subseteq> set ts"
  by (auto simp: clearTimer_def)

lemma clearSchedule_timers_subset: "set (timers (clearSchedule s)) \<subseteq> set (timers s)"
  using clearTimer_subset [of "timeoutId s" "timers s"]
  by (simp add: clearSchedule_def Let_def)

lemma scheduleNext_running:
  assumes "running s"
  shows "scheduleNext b u s =
     (clearSchedule s)
       \<lparr>scheduledAt := clock s,
        fireAt := clock s + randInt (minSec s) (maxSec s) u * 1000,
        timeoutId := Some (nextId s),
        timers := timers (clearSchedule s) @
          [(nextId s, Timeout (clock s + randInt (minSec s) (maxSec s) u * 1000) (gen s + 1))],
        nextId := nextId s + 1\<rparr>"
  using assms by (simp add: scheduleNext_def Let_def)

lemma scheduleNext_pending:
  assumes "ownedTimeouts s" "running s"
  shows "pendingTimeouts (scheduleNext b u s) =
     [(nextId s, Timeout (clock s + randInt (minSec s) (maxSec s) u * 1000) (gen s + 1))]"
  using clearSchedule_pending [OF assms(1)] assms(2)
  by (simp add: scheduleNext_running pendingTimeouts_def isTimeout_def)

lemma scheduleNext_inv:
  assumes "ownedTimeouts s" "running s"
  shows "scheduleInv (scheduleNext b u s)"
proof -
  have "\<forall>p \<in> set (timers (clearSchedule s)). 0 < fst p"
    using assms(1) clearSchedule_timers_subset [of s] by (auto simp: ownedTimeouts_def)
  moreover have "0 < nextId s" using assms(1) by (simp add: ownedTimeouts_def)
  ultimately show ?thesis
    using scheduleNext_pending [OF assms, of b u] assms(2)
    by (simp add: scheduleInv_def) (simp add: scheduleNext_running)
qed

lemma ownedTimeouts_cong:
  assumes "timers s' = timers s" "timeoutId s' = timeoutId s" "nextId s' = nextId s"
  shows "ownedTimeouts s' = ownedTimeouts s"
  using assms by (simp add: ownedTimeouts_def pendingTimeouts_def)

lemma scheduleInv_clearTimer:
  assumes "scheduleInv s"
  shows "scheduleInv (s\<lparr>timers := clearTimer h (timers s)\<rparr>)"
proof -
  have "length (clearTimer h (pendingTimeouts s)) \<le> 1"
    using assms length_clearTimer [of h "pendingTimeouts s"]
    by (simp add: scheduleInv_def)
  then show ?thesis
    using assms
    by (auto simp: scheduleInv_def pendingTimeouts_def pendingTimeouts_clearTimer
        dest!: clearTimer_member)
qed

lemma ownedTimeouts_clearTimer:
  assumes "ownedTimeouts s"
  shows "ownedTimeouts (s\<lparr>timers := clearTimer h (timers s)\<rparr>)" (is "ownedTimeouts ?s'")
proof -
  have sub: "set (timers ?s') \<subseteq> set (timers s)"
    by (simp add: clearTimer_def)
  have psub: "set (pendingTimeouts ?s') \<subseteq> set (pendingTimeouts s)"
    by (auto simp: pendingTimeouts_def clearTimer_def)
  have "timeoutId ?s' = timeoutId s" "nextId ?s' = nextId s"
    by simp_all
  with sub psub assms show ?thesis
    unfolding ownedTimeouts_def by (metis subsetD)
qed

lemma startUiLoop_frame [simp]:
  "minSec (startUiLoop s) = minSec s" "maxSec (startUiLoop s) = maxSec s"
  "running (startUiLoop s) = running s" "gen (startUiLoop s) = gen s"
  "timeoutId (startUiLoop s) = timeoutId s" "clock (startUiLoop s) = clock s"
  "lastRandomAt (startUiLoop s) = lastRandomAt s"
  "awaiting (startUiLoop s) = awaiting s" "playLog (startUiLoop s) = playLog s"
  "warnings (startUiLoop s) = warnings s"
  by (simp_all add: startUiLoop_def Let_def)

lemma stopUiLoop_frame [simp]:
  "minSec (stopUiLoop s) = minSec s" "maxSec (stopUiLoop s) = maxSec s"
  "running (stopUiLoop s) = running s" "gen (stopUiLoop s) = gen s"
  "scheduledAt (stopUiLoop s) = scheduledAt s" "fireAt (stopUiLoop s) = fireAt s"
  "timeoutId (stopUiLoop s) = timeoutId s" "clock (stopUiLoop s) = clock s"
  "nextId (stopUiLoop s) = nextId s" "lastRandomAt (stopUiLoop s) = lastRandomAt s"
  "awaiting (stopUiLoop s) = awaiting s" "playLog (stopUiLoop s) = playLog s"
  "warnings (stopUiLoop s) = warnings s"
  by (simp_all add: stopUiLoop_def Let_def)

lemma startUiLoop_timers:
  "timers (startUiLoop s) =
     (if truthyId (uiIntervalId s) then clearTimer (uiIntervalId s) (timers s) else timers s)
       @ [(nextId s, Interval)]"
  "nextId (startUiLoop s) = nextId s + 1"
  by (simp_all add: startUiLoop_def Let_def)

lemma stopUiLoop_timers:
  "timers (stopUiLoop s) =
     (if truthyId (uiIntervalId s) then clearTimer (uiIntervalId s) (timers s) else timers s)"
  by (simp add: stopUiLoop_def Let_def)

lemma startUiLoop_owned:
  assumes "ownedTimeouts s"
  shows "ownedTimeouts (startUiLoop s)"
  using assms
  by (auto simp: ownedTimeouts_def pendingTimeouts_def startUiLoop_timers
      pendingTimeouts_clearTimer isTimeout_def dest!: clearTimer_member)

lemma stopUiLoop_pending:
  assumes "pendingTimeouts s = []"
  shows "pendingTimeouts (stopUiLoop s) = []"
proof -
  have "clearTimer (uiIntervalId s) (pendingTimeouts s) = []"
    using assms by (simp add: clearTimer_def)
  with assms show ?thesis
    by (simp add: pendingTimeouts_def stopUiLoop_timers pendingTimeouts_clearTimer)
qed

lemma stopUiLoop_timers_subset: "set (timers (stopUiLoop s)) \<subseteq> set (timers s)"
  using clearTimer_subset [of "uiIntervalId s" "timers s"] by (simp add: stopUiLoop_timers)

lemma stop_pending:
  assumes "ownedTimeouts s"
  shows "pendingTimeouts (stop s) = []"
proof -
  have "ownedTimeouts (setStartLabel (s\<lparr>running := False\<rparr>))"
    using assms by (simp add: ownedTimeouts_def pendingTimeouts_def)
  then show ?thesis
    by (simp add: stop_def stopUiLoop_pending clearSchedule_pending)
qed

lemma stop_frame [simp]:
  "minSec (stop s) = minSec s" "maxSec (stop s) = maxSec s"
  "running (stop s) = False" "gen (stop s) = gen s + 1"
  "scheduledAt (stop s) = 0" "fireAt (stop s) = 0"
  "clock (stop s) = clock s" "nextId (stop s) = nextId s"
  "lastRandomAt (stop s) = lastRandomAt s"
  "awaiting (stop s) = awaiting s" "playLog (stop s) = playLog s"
  "warnings (stop s) = warnings s"
  by (simp_all add: stop_def)

lemma stop_inv:
  assumes "ownedTimeouts s"
  shows "scheduleInv (stop s)"
proof -
  have "set (timers (stop s)) \<subseteq> set (timers s)"
    using stopUiLoop_timers_subset [of "clearSchedule (setStartLabel (s\<lparr>running := False\<rparr>))"]
      clearSchedule_timers_subset [of "setStartLabel (s\<lparr>running := False\<rparr>)"]
    by (simp add: stop_def)
  then show ?thesis
    using assms stop_pending [OF assms]
    by (auto simp: scheduleInv_def ownedTimeouts_def)
qed

lemma scheduleNext_frame [simp]:
  "minSec (scheduleNext b u s) = minSec s" "maxSec (scheduleNext b u s) = maxSec s"
  "running (scheduleNext b u s) = running s" "clock (scheduleNext b u s) = clock s"
  "uiIntervalId (scheduleNext b u s) = uiIntervalId s"
  "lastRandomAt (scheduleNext b u s) = lastRandomAt s"
  "awaiting (scheduleNext b u s) = awaiting s" "playLog (scheduleNext b u s) = playLog s"
  "warnings (scheduleNext b u s) = warnings s"
  "gen (scheduleNext b u s) = (if running s then gen s + 1 else gen s)"
  by (simp_all add: scheduleNext_def Let_def)

lemma start_frame [simp]:
  "minSec (start u s) = minSec s" "maxSec (start u s) = maxSec s"
  "running (start u s) = True" "gen (start u s) = gen s + 1"
  "clock (start u s) = clock s" "lastRandomAt (start u s) = lastRandomAt s"
  "awaiting (start u s) = awaiting s" "playLog (start u s) = playLog s"
  "warnings (start u s) = warnings s"
  by (simp_all add: start_def)

lemma start_inv:
  assumes "ownedTimeouts s"
  shows "scheduleInv (start u s)"
proof -
  have "ownedTimeouts (setStartLabel (s\<lparr>running := True\<rparr>))"
    using assms by (simp add: ownedTimeouts_def pendingTimeouts_def)
  then have "ownedTimeouts (startUiLoop (setStartLabel (s\<lparr>running := True\<rparr>)))"
    by (rule startUiLoop_owned)
  then have "scheduleInv (scheduleNext True u (startUiLoop (setStartLabel (s\<lparr>running := True\<rparr>))))"
    by (rule scheduleNext_inv) simp
  then show ?thesis
    by (simp add: start_def scheduleInv_cong [of "updateUI _"])
qed

lemma audioRestart_frame [simp]:
  "minSec (audioRestart k s) = minSec s" "maxSec (audioRestart k s) = maxSec s"
  "running (audioRestart k s) = running s" "gen (audioRestart k s) = gen s"
  "scheduledAt (audioRestart k s) = scheduledAt s" "fireAt (audioRestart k s) = fireAt s"
  "timeoutId (audioRestart k s) = timeoutId s" "uiIntervalId (audioRestart k s) = uiIntervalId s"
  "lastRandomAt (audioRestart k s) = lastRandomAt s"
  "clock (audioRestart k s) = clock s" "nextId (audioRestart k s) = nextId s"
  "timers (audioRestart k s) = timers s" "awaiting (audioRestart k s) = awaiting s"
  "warnings (audioRestart k s) = warnings s" "playLog (audioRestart k s) = playLog s @ [k]"
  "btnStart (audioRestart k s) = btnStart s" "elWindow (audioRestart k s) = elWindow s"
  "elLast (audioRestart k s) = elLast s" "elNext (audioRestart k s) = elNext s"
  "elProgress (audioRestart k s) = elProgress s"
  by (simp_all add: audioRestart_def Let_def)

lemma windowChange_inv:
  assumes "scheduleInv s"
  shows "scheduleInv (expandWindow u s)" "scheduleInv (shrinkWindow u s)"
  using assms scheduleInv_owned [OF assms]
  by (auto simp: expandWindow_def shrinkWindow_def Let_def
      scheduleInv_cong [of "updateUI _"] scheduleInv_cong [of "_\<lparr>maxSec := _\<rparr>"]
      ownedTimeouts_cong [of "_\<lparr>maxSec := _\<rparr>"] intro!: scheduleNext_inv)

lemma playScheduledOnce_frame [simp]:
  "minSec (playScheduledOnce g s) = minSec s" "maxSec (playScheduledOnce g s) = maxSec s"
  "running (playScheduledOnce g s) = running s" "gen (playScheduledOnce g s) = gen s"
  "scheduledAt (playScheduledOnce g s) = scheduledAt s"
  "fireAt (playScheduledOnce g s) = fireAt s"
  "timeoutId (playScheduledOnce g s) = timeoutId s"
  "lastRandomAt (playScheduledOnce g s) = lastRandomAt s"
  "clock (playScheduledOnce g s) = clock s" "nextId (playScheduledOnce g s) = nextId s"
  "timers (playScheduledOnce g s) = timers s"
  "awaiting (playScheduledOnce g s) = awaiting s @ [SchedPlay g]"
  "warnings (playScheduledOnce g s) = warnings s"
  "playLog (playScheduledOnce g s) = playLog s @ [Scheduled]"
  by (simp_all add: playScheduledOnce_def Let_def)

lemma playNowOnly_frame [simp]:
  "minSec (playNowOnly s) = minSec s" "maxSec (playNowOnly s) = maxSec s"
  "running (playNowOnly s) = running s" "gen (playNowOnly s) = gen s"
  "scheduledAt (playNowOnly s) = scheduledAt s" "fireAt (playNowOnly s) = fireAt s"
  "timeoutId (playNowOnly s) = timeoutId s" "uiIntervalId (playNowOnly s) = uiIntervalId s"
  "lastRandomAt (playNowOnly s) = lastRandomAt s"
  "clock (playNowOnly s) = clock s" "nextId (playNowOnly s) = nextId s"
  "timers (playNowOnly s) = timers s"
  "awaiting (playNowOnly s) = awaiting s @ [ManualPlay]"
  "warnings (playNowOnly s) = warnings s"
  "playLog (playNowOnly s) = playLog s @ [Manual]"
  "btnStart (playNowOnly s) = btnStart s" "elWindow (playNowOnly s) = elWindow s"
  "elLast (playNowOnly s) = elLast s" "elNext (playNowOnly s) = elNext s"
  "elProgress (playNowOnly s) = elProgress s"
  by (simp_all add: playNowOnly_def Let_def)

lemma playScheduledOnceSettled_frame [simp]:
  "minSec (playScheduledOnceSettled out s) = minSec s"
  "maxSec (playScheduledOnceSettled out s) = maxSec s"
  "running (playScheduledOnceSettled out s) = running s"
  "gen (playScheduledOnceSettled out s) = gen s"
  "scheduledAt (playScheduledOnceSettled out s) = scheduledAt s"
  "fireAt (playScheduledOnceSettled out s) = fireAt s"
  "timeoutId (playScheduledOnceSettled out s) = timeoutId s"
  "clock (playScheduledOnceSettled out s) = clock s"
  "nextId (playScheduledOnceSettled out s) = nextId s"
  "timers (playScheduledOnceSettled out s) = timers s"
  "awaiting (playScheduledOnceSettled out s) = awaiting s"
  "playLog (playScheduledOnceSettled out s) = playLog s"
  by (simp_all add: playScheduledOnceSettled_def split: outcome.splits)

lemma playNowOnlySettled_frame [simp]:
  "minSec (playNowOnlySettled out s) = minSec s"
  "maxSec (playNowOnlySettled out s) = maxSec s"
  "running (playNowOnlySettled out s) = running s"
  "gen (playNowOnlySettled out s) = gen s"
  "scheduledAt (playNowOnlySettled out s) = scheduledAt s"
  "fireAt (playNowOnlySettled out s) = fireAt s"
  "timeoutId (playNowOnlySettled out s) = timeoutId s"
  "uiIntervalId (playNowOnlySettled out s) = uiIntervalId s"
  "lastRandomAt (playNowOnlySettled out s) = lastRandomAt s"
  "clock (playNowOnlySettled out s) = clock s"
  "nextId (playNowOnlySettled out s) = nextId s"
  "timers (playNowOnlySettled out s) = timers s"
  "awaiting (playNowOnlySettled out s) = awaiting s"
  "playLog (playNowOnlySettled out s) = playLog s"
  "btnStart (playNowOnlySettled out s) = btnStart s"
  "elWindow (playNowOnlySettled out s) = elWindow s"
  "elLast (playNowOnlySettled out s) = elLast s" "elNext (playNowOnlySettled out s) = elNext s"
  "elProgress (playNowOnlySettled out s) = elProgress s"
  by (simp_all add: playNowOnlySettled_def split: outcome.splits)

lemma timeoutCallback_inv:
  assumes "scheduleInv s"
  shows "scheduleInv (timeoutCallback g s)"
proof -
  have "\<And>k. scheduleInv (playScheduledOnce k s) = scheduleInv s"
    by (rule scheduleInv_cong) simp_all
  with assms show ?thesis
    by (simp add: timeoutCallback_def)
qed

lemma timeoutCallbackResumed_inv:
  assumes "scheduleInv s"
  shows "scheduleInv (timeoutCallbackResumed g out u s)"
proof -
  have "scheduleInv (playScheduledOnceSettled out s)"
    using assms by (simp add: scheduleInv_cong [of "playScheduledOnceSettled out s" s])
  then show ?thesis
    by (auto simp: timeoutCallbackResumed_def Let_def
        intro!: scheduleNext_inv scheduleInv_owned)
qed

lemma fire_inv:
  assumes "scheduleInv s"
  shows "scheduleInv (fire i s)"
  using assms
  by (auto simp: fire_def scheduleInv_cong [of "updateUI s" s]
      intro!: timeoutCallback_inv scheduleInv_clearTimer split: option.splits task.splits)

lemma settle_inv:
  assumes "scheduleInv s"
  shows "scheduleInv (settle n out u s)"
proof -
  let ?s1 = "s\<lparr>awaiting := take n (awaiting s) @ drop (Suc n) (awaiting s)\<rparr>"
  have s1: "scheduleInv ?s1"
    using assms by (simp add: scheduleInv_cong [of ?s1 s])
  then have "scheduleInv (playNowOnlySettled out ?s1)"
    by (simp add: scheduleInv_cong [of "playNowOnlySettled out ?s1" ?s1])
  with s1 assms show ?thesis
    by (simp add: settle_def Let_def timeoutCallbackResumed_inv split: pending.splits)
qed

lemma step_inv:
  assumes "scheduleInv s"
  shows "scheduleInv (step e s)"
proof (cases e)
  case (ClickArm u)
  then show ?thesis
    using assms by (simp add: toggle_def stop_inv start_inv scheduleInv_owned)
next
  case ClickPlayNow
  then show ?thesis
    using assms by (simp add: scheduleInv_cong [of "playNowOnly s" s])
next
  case (ClickExpand u)
  then show ?thesis using assms by (simp add: windowChange_inv)
next
  case (ClickShrink u)
  then show ?thesis using assms by (simp add: windowChange_inv)
next
  case (Advance d)
  then show ?thesis
    using assms by (simp add: scheduleInv_cong [of "s\<lparr>clock := clock s + int d\<rparr>" s])
next
  case (Fire i)
  then show ?thesis using assms by (simp add: fire_inv)
next
  case (Settle n out u)
  then show ?thesis using assms by (simp add: settle_inv)
next
  case PageHide
  have "scheduleInv (stop s)"
    using assms by (simp add: stop_inv scheduleInv_owned)
  then show ?thesis
    using PageHide by (simp add: scheduleInv_cong [of "(stop s)\<lparr>audioPaused := True\<rparr>" "stop s"])
qed

lemma run_inv: "scheduleInv s \<Longrightarrow> scheduleInv (run es s)"
  by (induction es arbitrary: s) (simp_all add: step_inv)

lemma initialState_frame [simp]:
  "minSec (initialState c now) = 60" "maxSec (initialState c now) = 300"
  "running (initialState c now) = False" "gen (initialState c now) = 0"
  "scheduledAt (initialState c now) = 0" "fireAt (initialState c now) = 0"
  "timeoutId (initialState c now) = None" "uiIntervalId (initialState c now) = None"
  "lastRandomAt (initialState c now) = None"
  "clock (initialState c now) = now" "nextId (initialState c now) = 1"
  "timers (initialState c now) = []" "awaiting (initialState c now) = []"
  "playLog (initialState c now) = []" "warnings (initialState c now) = []"
  by (simp_all add: initialState_def declared_def)

lemma initialState_inv: "scheduleInv (initialState c now)"
  by (simp add: scheduleInv_def pendingTimeouts_def)

lemma reachable_inv: "scheduleInv (run es (initialState c now))"
  by (rule run_inv) (rule initialState_inv)

subsection \<open>The generation counter never decreases\<close>

lemma fire_gen [simp]: "gen (fire i s) = gen s"
  by (simp add: fire_def timeoutCallback_def split: option.splits task.splits)

lemma settle_gen: "gen s \<le> gen (settle n out u s)"
  by (simp add: settle_def timeoutCallbackResumed_def Let_def split: pending.splits)

lemma step_gen_mono: "gen s \<le> gen (step e s)"
  by (cases e) (simp_all add: toggle_def expandWindow_def shrinkWindow_def Let_def settle_gen)

lemma run_gen_mono: "gen s \<le> gen (run es s)"
proof (induction es arbitrary: s)
  case Nil
  show ?case by simp
next
  case (Cons e es)
  have "gen s \<le> gen (step e s)" by (rule step_gen_mono)
  also have "\<dots> \<le> gen (run es (step e s))" by (rule Cons.IH)
  finally show ?case by simp
qed

subsection \<open>A stopped widget stays stopped and plays nothing on its own\<close>

lemma scheduledPlays_frame [simp]:
  "scheduledPlays (updateUI s) = scheduledPlays s"
  "scheduledPlays (stop s) = scheduledPlays s"
  "scheduledPlays (playNowOnly s) = scheduledPlays s"
  "scheduledPlays (playNowOnlySettled out s) = scheduledPlays s"
  "scheduledPlays (playScheduledOnceSettled out s) = scheduledPlays s"
  "scheduledPlays (scheduleNext b u s) = scheduledPlays s"
  by (simp_all add: scheduledPlays_def)

lemma step_stopped:
  assumes "\<not> running s" "\<not> isArm e"
  shows "\<not> running (step e s) \<and> scheduledPlays (step e s) = scheduledPlays s"
proof (cases e)
  case (ClickArm u)
  with assms show ?thesis by simp
next
  case (Fire i)
  with assms show ?thesis
    by (simp add: fire_def timeoutCallback_def scheduledPlays_def split: option.splits task.splits)
next
  case (Settle n out u)
  with assms show ?thesis
    by (simp add: settle_def timeoutCallbackResumed_def Let_def scheduledPlays_def
        split: pending.splits)
next
  case PageHide
  with assms show ?thesis by (simp add: scheduledPlays_def)
qed (use assms in \<open>simp_all add: expandWindow_def shrinkWindow_def Let_def scheduledPlays_def\<close>)

lemma run_stopped:
  assumes "\<not> running s" "list_all (\<lambda>e. \<not> isArm e) es"
  shows "\<not> running (run es s) \<and> scheduledPlays (run es s) = scheduledPlays s"
  using assms
proof (induction es arbitrary: s)
  case Nil
  then show ?case by simp
next
  case (Cons e es)
  then have e: "\<not> running (step e s) \<and> scheduledPlays (step e s) = scheduledPlays s"
    by (simp add: step_stopped)
  with Cons.IH [of "step e s"] Cons.prems show ?case by simp
qed

subsection \<open>The window\<close>

lemma expandWindow_window:
  "minSec (expandWindow u s) = clamp (minSec s + 60) 30 3600"
  "maxSec (expandWindow u s) = clamp (maxSec s + 60) (clamp (minSec s + 60) 30 3600 + 30) 7200"
  by (simp_all add: expandWindow_def Let_def)

lemma shrinkWindow_window:
  "minSec (shrinkWindow u s) = clamp (minSec s - 60) 30 3600"
  "maxSec (shrinkWindow u s) = clamp (maxSec s - 60) (clamp (minSec s - 60) 30 3600 + 30) 7200"
  by (simp_all add: shrinkWindow_def Let_def)

lemma windowOk_expand: "windowOk (expandWindow u s)"
  by (simp add: windowOk_def expandWindow_window clamp_def)

lemma windowOk_shrink: "windowOk (shrinkWindow u s)"
  by (simp add: windowOk_def shrinkWindow_window clamp_def)

lemma fire_window [simp]:
  "minSec (fire i s) = minSec s" "maxSec (fire i s) = maxSec s"
  by (simp_all add: fire_def timeoutCallback_def split: option.splits task.splits)

lemma settle_window [simp]:
  "minSec (settle n out u s) = minSec s" "maxSec (settle n out u s) = maxSec s"
  by (simp_all add: settle_def timeoutCallbackResumed_def Let_def split: pending.splits)

lemma step_windowOk: "windowOk s \<Longrightarrow> windowOk (step e s)"
proof (cases e)
  case (ClickExpand u)
  then show ?thesis by (simp add: windowOk_expand)
next
  case (ClickShrink u)
  then show ?thesis by (simp add: windowOk_shrink)
qed (simp_all add: windowOk_def toggle_def)

lemma run_windowOk: "windowOk s \<Longrightarrow> windowOk (run es s)"
  by (induction es arbitrary: s) (simp_all add: step_windowOk)

lemma expand_many_stopped:
  assumes "\<not> running s" "windowOk s" "minSec s \<le> 3600"
  shows "window (run (replicate n (ClickExpand u)) s) =
     (min 3600 (minSec s + 60 * int n), min 7200 (maxSec s + 60 * int n))"
  using assms
proof (induction n arbitrary: s)
  case 0
  then show ?case by (simp add: window_def windowOk_def)
next
  case (Suc n)
  have "window (run (replicate n (ClickExpand u)) (expandWindow u s)) =
     (min 3600 (minSec (expandWindow u s) + 60 * int n),
      min 7200 (maxSec (expandWindow u s) + 60 * int n))"
  proof (rule Suc.IH)
    show "\<not> running (expandWindow u s)"
      using Suc.prems by (simp add: expandWindow_def Let_def)
    show "windowOk (expandWindow u s)"
      by (rule windowOk_expand)
    show "minSec (expandWindow u s) \<le> 3600"
      by (simp add: expandWindow_window clamp_def)
  qed
  then show ?case
    using Suc.prems by (simp add: expandWindow_window clamp_def windowOk_def) linarith
qed

section \<open>The window operations\<close>

text \<open>
  Claim C2. After every sequence of events from the initial state, and so after each call
  in every sequence of \<open>expandWindow\<close> and \<open>shrinkWindow\<close> calls from the initial
  window of 60 to 300 seconds, \<open>minSec\<close> is at least 30, \<open>maxSec\<close> is at least
  \<open>minSec + 30\<close>, and \<open>maxSec\<close> is at most 7200.
\<close>

theorem window_bounds_invariant:
  "windowOk (run es (initialState c now))"
  by (rule run_windowOk) (simp add: windowOk_def)

text \<open>Five clicks on the shrink button reach the smallest window, 30 to 60 seconds.\<close>

theorem window_bounds_invariant_witness:
  "windowOk (run (replicate 5 (ClickShrink 0)) (initialState demoContainer 1000)) \<and>
   window (run (replicate 5 (ClickShrink 0)) (initialState demoContainer 1000)) = (30, 60)"
  using window_bounds_invariant [of "replicate 5 (ClickShrink 0)" demoContainer 1000]
  by (simp add: numeral_eq_Suc window_def shrinkWindow_window clamp_def)

text \<open>
  Claim C5, as the code has it. \<open>expandWindow\<close> adds 60 seconds to each bound: from the
  window of 60 to 300 seconds it yields 120 to 360 seconds (not 120 to 420); from the
  window of 3600 to 7200 seconds both bounds are clamped, and the window stays as it is.
\<close>

theorem expandWindow_scenarios:
  "(window s = (60, 300) \<longrightarrow> window (expandWindow u s) = (120, 360)) \<and>
   (window s = (3600, 7200) \<longrightarrow> window (expandWindow u s) = (3600, 7200))"
  by (simp add: window_def expandWindow_window clamp_def)

text \<open>
  Both windows occur: the first is the initial one, the second is reached by 115 clicks on
  the expand button.
\<close>

theorem expandWindow_scenarios_witness:
  "window (initialState demoContainer 1000) = (60, 300) \<and>
   window (expandWindow (1 / 2) (initialState demoContainer 1000)) = (120, 360) \<and>
   window (run (replicate 115 (ClickExpand (1 / 2))) (initialState demoContainer 1000)) = (3600, 7200) \<and>
   window (expandWindow (1 / 2)
     (run (replicate 115 (ClickExpand (1 / 2))) (initialState demoContainer 1000))) = (3600, 7200)"
proof -
  let ?s = "initialState demoContainer 1000"
  let ?t = "run (replicate 115 (ClickExpand (1 / 2))) ?s"
  have s: "window ?s = (60, 300)"
    by (simp add: window_def)
  have t: "window ?t = (3600, 7200)"
    by (simp add: expand_many_stopped windowOk_def)
  from s t expandWindow_scenarios [of ?s "1 / 2"] expandWindow_scenarios [of ?t "1 / 2"]
  show ?thesis by simp
qed

text \<open>On the initial window, \<open>expandWindow\<close> gives 120 to 360 seconds.\<close>

theorem expandWindow_default_counterexample:
  "window (initialState demoContainer 1000) = (60, 300) \<and>
   window (expandWindow (1 / 2) (initialState demoContainer 1000)) = (120, 360) \<and>
   window (expandWindow (1 / 2) (initialState demoContainer 1000)) \<noteq> (120, 420)"
  by (simp add: window_def expandWindow_window clamp_def)

section \<open>Arming a schedule\<close>

lemmas eval_defs = ui_defs loop_defs sched_defs play_defs control_defs fire_def settle_def
  initialState_def declared_def demoContainer_def presentElem_def truthyId_def clearTimer_def
  randInt_def toDouble_values clamp_def Let_def

lemma scheduleNext_schedule:
  assumes "running s"
  shows "scheduledAt (scheduleNext b u s) = clock s"
    "fireAt (scheduleNext b u s) = clock s + randInt (minSec s) (maxSec s) u * 1000"
    "timeoutId (scheduleNext b u s) = Some (nextId s)"
    "nextId (scheduleNext b u s) = nextId s + 1"
    "(nextId s, Timeout (clock s + randInt (minSec s) (maxSec s) u * 1000) (gen s + 1))
       \<in> set (timers (scheduleNext b u s))"
  using assms by (simp_all add: scheduleNext_running)

lemma start_schedule:
  "scheduledAt (start u s) = clock s"
  "fireAt (start u s) = clock s + randInt (minSec s) (maxSec s) u * 1000"
  "timeoutId (start u s) = Some (nextId s + 1)"
  "nextId (start u s) = nextId s + 2"
  "uiIntervalId (start u s) = Some (nextId s)"
  by (simp_all add: start_def scheduleNext_schedule startUiLoop_timers)
   (simp add: startUiLoop_def Let_def)

lemma start_pending:
  assumes "ownedTimeouts s"
  shows "pendingTimeouts (start u s) =
     [(nextId s + 1, Timeout (clock s + randInt (minSec s) (maxSec s) u * 1000) (gen s + 1))]"
proof -
  have "ownedTimeouts (setStartLabel (s\<lparr>running := True\<rparr>))"
    using assms by (simp add: ownedTimeouts_def pendingTimeouts_def)
  then have "ownedTimeouts (startUiLoop (setStartLabel (s\<lparr>running := True\<rparr>)))"
    by (rule startUiLoop_owned)
  then show ?thesis
    by (simp add: start_def scheduleNext_pending startUiLoop_timers)
qed




section \<open>Manual play\<close>

text \<open>
  Claim C8. In every state, \<open>playNowOnly\<close> leaves \<open>scheduledAt\<close>, \<open>fireAt\<close>, the
  generation, the window, the run state and the time of the last scheduled play as they
  are, and so does its continuation when the play promise settles, fulfilled or rejected;
  the timers and what the container shows stay as they are too.
\<close>

theorem playNow_frame:
  "scheduleVars (playNowOnly s) = scheduleVars s \<and>
   timerVars (playNowOnly s) = timerVars s \<and>
   display (playNowOnly s) = display s \<and>
   scheduleVars (playNowOnlySettled out s) = scheduleVars s \<and>
   timerVars (playNowOnlySettled out s) = timerVars s \<and>
   display (playNowOnlySettled out s) = display s \<and>
   (n < length (awaiting s) \<and> awaiting s ! n = ManualPlay \<longrightarrow>
      scheduleVars (settle n out u s) = scheduleVars s \<and>
      timerVars (settle n out u s) = timerVars s \<and>
      display (settle n out u s) = display s)"
  by (simp add: scheduleVars_def timerVars_def display_def settle_def)

text \<open>A manual play that is rejected while a schedule is armed.\<close>

theorem playNow_frame_witness:
  "scheduleVars (run [ClickArm (1 / 2)] (initialState demoContainer 1000)) =
     (1000, 181000, 1, 60, 300, True, None) \<and>
   scheduleVars (run [ClickArm (1 / 2), ClickPlayNow] (initialState demoContainer 1000)) =
     (1000, 181000, 1, 60, 300, True, None) \<and>
   awaiting (run [ClickArm (1 / 2), ClickPlayNow] (initialState demoContainer 1000)) = [ManualPlay] \<and>
   scheduleVars (run [ClickArm (1 / 2), ClickPlayNow, Settle 0 (Rejected ''NotAllowedError'') 0]
     (initialState demoContainer 1000)) = (1000, 181000, 1, 60, 300, True, None)"
proof -
  let ?s = "run [ClickArm (1 / 2)] (initialState demoContainer 1000)"
  have a: "scheduleVars ?s = (1000, 181000, 1, 60, 300, True, None)"
    by (simp add: scheduleVars_def eval_defs)
  have b: "awaiting (playNowOnly ?s) = [ManualPlay]"
    by (simp add: toggle_def)
  from a b playNow_frame [of ?s "Rejected ''NotAllowedError''" 0 0]
    playNow_frame [of "playNowOnly ?s" "Rejected ''NotAllowedError''" 0 0]
  show ?thesis by simp
qed

section \<open>The window operations while stopped\<close>

text \<open>
  Claim C10. While the widget is not running, \<open>scheduleNext\<close> does nothing, and
  \<open>expandWindow\<close> and \<open>shrinkWindow\<close> change the two bounds of the window and refresh
  what the container shows; nothing else changes: \<open>scheduledAt\<close>, \<open>fireAt\<close>, the
  generation, the timeout handle and the timers of the host are as before, so no schedule is
  armed.
\<close>

theorem window_ops_while_stopped:
  "\<not> running s \<longrightarrow>
     scheduleNext b u s = s \<and>
     untouchedBeyondWindow s (expandWindow u s) \<and>
     untouchedBeyondWindow s (shrinkWindow u s) \<and>
     (scheduledAt (expandWindow u s), fireAt (expandWindow u s), gen (expandWindow u s)) =
       (scheduledAt s, fireAt s, gen s) \<and>
     (scheduledAt (shrinkWindow u s), fireAt (shrinkWindow u s), gen (shrinkWindow u s)) =
       (scheduledAt s, fireAt s, gen s) \<and>
     timerVars (expandWindow u s) = timerVars s \<and>
     timerVars (shrinkWindow u s) = timerVars s"
  by (simp add: untouchedBeyondWindow_def timerVars_def scheduleNext_def expandWindow_def
      shrinkWindow_def Let_def ui_defs)

text \<open>The initial state is not running; expanding and shrinking there arm nothing.\<close>

theorem window_ops_while_stopped_witness:
  "\<not> running (initialState demoContainer 1000) \<and>
   window (expandWindow (1 / 2) (initialState demoContainer 1000)) = (120, 360) \<and>
   timerVars (expandWindow (1 / 2) (initialState demoContainer 1000)) = (None, None, [], 1) \<and>
   timerVars (shrinkWindow (1 / 2) (initialState demoContainer 1000)) = (None, None, [], 1)"
  using window_ops_while_stopped [of "initialState demoContainer 1000" True "1 / 2"]
  by (simp add: timerVars_def window_def expandWindow_window clamp_def)

section \<open>The refresh tick\<close>

lemma updateUI_elProgress:
  assumes "running s" "fireAt s \<noteq> 0" "scheduledAt s \<noteq> 0"
  shows "elProgress (updateUI s) =
     map_option (\<lambda>_. clamp (real_of_int (clamp (clock s - scheduledAt s) 0
         (max 1 (fireAt s - scheduledAt s))) /
       real_of_int (max 1 (fireAt s - scheduledAt s)) * 100) 0 100) (elProgress s)"
  using assms by (simp add: ui_defs Let_def)

lemma clamp_ratio:
  fixes x d :: real
  assumes "0 < d"
  shows "clamp (clamp x 0 d / d * 100) 0 100 = clamp (x / d) 0 1 * 100"
proof -
  define y where "y = x / d"
  have x: "x = y * d"
    using assms by (simp add: y_def)
  have "clamp (y * d) 0 d = clamp y 0 1 * d"
  proof -
    consider "y \<le> 0" | "0 < y" "y < 1" | "1 \<le> y" by linarith
    then show ?thesis
    proof cases
      case 1
      then have "y * d \<le> 0"
        using assms by (simp add: mult_le_0_iff)
      with 1 assms show ?thesis
        by (simp add: clamp_def min_def max_def)
    next
      case 2
      then have "0 < y * d" "y * d < d"
        using assms by simp_all
      with 2 assms show ?thesis
        by (simp add: clamp_def min_def max_def)
    next
      case 3
      then have "d \<le> y * d"
        using assms by simp
      with 3 assms show ?thesis
        by (simp add: clamp_def min_def max_def)
    qed
  qed
  then have "clamp x 0 d / d = clamp y 0 1"
    using assms by (simp add: x)
  moreover have "0 \<le> clamp y 0 1" "clamp y 0 1 \<le> 1"
    by (simp_all add: clamp_def)
  then have "clamp (clamp y 0 1 * 100) 0 100 = clamp y 0 1 * 100"
    by (simp add: clamp_def [of "clamp y 0 1 * 100"])
  ultimately show ?thesis
    by (simp add: y_def)
qed

lemma progress_formula:
  assumes "sAt < fAt"
  shows "clamp (real_of_int (clamp (t - sAt) 0 (max 1 (fAt - sAt))) /
       real_of_int (max 1 (fAt - sAt)) * 100) 0 100 = progressSpec sAt fAt t"
proof -
  have m: "max 1 (fAt - sAt) = fAt - sAt"
    using assms by simp
  have c: "real_of_int (clamp (t - sAt) 0 (fAt - sAt)) =
      clamp (real_of_int (t - sAt)) 0 (real_of_int (fAt - sAt))"
    by (simp add: clamp_def min_def max_def)
  have d: "0 < real_of_int (fAt - sAt)"
    using assms by simp
  show ?thesis
    unfolding m c progressSpec_def by (rule clamp_ratio [OF d])
qed

lemma progressSpec_mono:
  assumes "sAt < fAt" "t1 \<le> t2"
  shows "progressSpec sAt fAt t1 \<le> progressSpec sAt fAt t2"
proof -
  have "real_of_int (t1 - sAt) / real_of_int (fAt - sAt) \<le>
      real_of_int (t2 - sAt) / real_of_int (fAt - sAt)"
    using assms by (intro divide_right_mono) simp_all
  then show ?thesis
    by (simp add: progressSpec_def clamp_def min_def max_def)
qed

lemma progressSpec_full:
  assumes "sAt < fAt" "fAt \<le> t"
  shows "progressSpec sAt fAt t = 100"
proof -
  have "1 \<le> real_of_int (t - sAt) / real_of_int (fAt - sAt)"
    using assms by simp
  then show ?thesis
    by (simp add: progressSpec_def clamp_def min_def max_def)
qed

text \<open>
  Claim C9. While the widget runs with a schedule armed (\<open>scheduledAt\<close> and \<open>fireAt\<close>
  set, \<open>scheduledAt < fireAt\<close>) and the progress element exists, a refresh tick at
  time \<open>t\<close> displays \<open>clamp ((t - scheduledAt) / (fireAt - scheduledAt)) 0 1 * 100\<close>;
  a later tick of the same interval never displays less, and from \<open>fireAt\<close> on the
  display is 100.
\<close>

theorem progress_monotone:
  "running s \<and> scheduledAt s \<noteq> 0 \<and> fireAt s \<noteq> 0 \<and> scheduledAt s < fireAt s \<and>
   elProgress s \<noteq> None \<longrightarrow>
     progressAt s t = Some (progressSpec (scheduledAt s) (fireAt s) t) \<and>
     (t1 \<le> t2 \<longrightarrow> the (progressAt s t1) \<le> the (progressAt s t2)) \<and>
     (fireAt s \<le> t \<longrightarrow> progressAt s t = Some 100)"
proof (intro impI)
  assume a: "running s \<and> scheduledAt s \<noteq> 0 \<and> fireAt s \<noteq> 0 \<and> scheduledAt s < fireAt s \<and>
   elProgress s \<noteq> None"
  then obtain p where p: "elProgress s = Some p" by auto
  have eq: "progressAt s x = Some (progressSpec (scheduledAt s) (fireAt s) x)" for x
  proof -
    let ?s = "s\<lparr>clock := x\<rparr>"
    have "running ?s" "fireAt ?s \<noteq> 0" "scheduledAt ?s \<noteq> 0"
      using a by simp_all
    then have "elProgress (updateUI ?s) =
      Some (clamp (real_of_int (clamp (x - scheduledAt s) 0 (max 1 (fireAt s - scheduledAt s))) /
        real_of_int (max 1 (fireAt s - scheduledAt s)) * 100) 0 100)"
      using p updateUI_elProgress [of ?s] by simp
    also have "\<dots> = Some (progressSpec (scheduledAt s) (fireAt s) x)"
      using a by (simp only: progress_formula)
    finally show ?thesis
      by (simp only: progressAt_def)
  qed
  show "progressAt s t = Some (progressSpec (scheduledAt s) (fireAt s) t) \<and>
     (t1 \<le> t2 \<longrightarrow> the (progressAt s t1) \<le> the (progressAt s t2)) \<and>
     (fireAt s \<le> t \<longrightarrow> progressAt s t = Some 100)"
    using a by (simp add: eq progressSpec_mono progressSpec_full)
qed

text \<open>A quarter, a half, the end and beyond the end of a schedule of 180 seconds.\<close>

theorem progress_monotone_witness:
  "running (start (1 / 2) (initialState demoContainer 1000)) \<and>
   scheduledAt (start (1 / 2) (initialState demoContainer 1000)) = 1000 \<and>
   fireAt (start (1 / 2) (initialState demoContainer 1000)) = 181000 \<and>
   progressAt (start (1 / 2) (initialState demoContainer 1000)) 46000 = Some 25 \<and>
   progressAt (start (1 / 2) (initialState demoContainer 1000)) 91000 = Some 50 \<and>
   progressAt (start (1 / 2) (initialState demoContainer 1000)) 181000 = Some 100 \<and>
   progressAt (start (1 / 2) (initialState demoContainer 1000)) 200000 = Some 100"
proof -
  let ?s = "start (1 / 2) (initialState demoContainer 1000)"
  have a: "running ?s" "scheduledAt ?s = 1000" "fireAt ?s = 181000"
    by (simp_all add: start_def scheduleNext_running randInt_values)
  have b: "elProgress ?s \<noteq> None"
    by (simp add: eval_defs)
  from a b progress_monotone [of ?s 46000] progress_monotone [of ?s 91000]
    progress_monotone [of ?s 181000] progress_monotone [of ?s 200000]
  show ?thesis
    by (simp add: progressSpec_def clamp_def)
qed

lemma fmtCountdown_text: "fmtCountdown (Some ms) = countdownText (secondsShown ms)"
proof -
  let ?s = "secondsShown ms"
  have nonneg: "0 \<le> ?s" by (simp add: secondsShown_def)
  then have "(0 < ?s div 60) = (60 \<le> ?s)"
    by (simp add: pos_imp_zdiv_pos_iff)
  moreover have "?s < 60 \<Longrightarrow> ?s mod 60 = ?s"
    using nonneg by simp
  ultimately show ?thesis
    by (simp add: fmtCountdown_def countdownText_def secondsShown_def [symmetric] Let_def)
qed

lemma updateUI_elNext:
  assumes "running s" "fireAt s \<noteq> 0" "scheduledAt s \<noteq> 0"
  shows "elNext (updateUI s) = map_option (\<lambda>_. fmtCountdown (Some (fireAt s - clock s))) (elNext s)"
  using assms by (simp add: ui_defs Let_def)

lemma secondsShown_ceiling:
  "(0 < ms \<longrightarrow> (secondsShown ms - 1) * 1000 < ms \<and> ms \<le> secondsShown ms * 1000) \<and>
   (ms \<le> 0 \<longrightarrow> secondsShown ms = 0)"
proof -
  define c where "c = \<lceil>real_of_int ms / 1000\<rceil>"
  have "real_of_int ms / 1000 \<le> real_of_int c" "real_of_int c - 1 < real_of_int ms / 1000"
    unfolding c_def by linarith+
  then have "real_of_int ms \<le> real_of_int (c * 1000)" "real_of_int ((c - 1) * 1000) < real_of_int ms"
    by simp_all
  then have c: "ms \<le> c * 1000" "(c - 1) * 1000 < ms"
    by (simp_all only: of_int_le_iff of_int_less_iff)
  have s: "secondsShown ms = max 0 c"
    by (simp add: secondsShown_def c_def)
  from c show ?thesis
    unfolding s by (auto simp: max_def)
qed

text \<open>
  Claim C6, as the code has it. On a refresh tick while running with a schedule armed, the
  countdown shown is \<open>fireAt - now\<close> rounded up to whole seconds, and zero once
  \<open>fireAt\<close> has passed: the least number of seconds that is not less than the time
  left. It is formatted with minutes when that number of seconds is at least 60, and as
  seconds alone otherwise.
\<close>

theorem countdown_rounds_up:
  "(running s \<and> fireAt s \<noteq> 0 \<and> scheduledAt s \<noteq> 0 \<and> elNext s \<noteq> None \<longrightarrow>
      elNext (updateUI s) = Some (countdownText (secondsShown (fireAt s - clock s)))) \<and>
   (0 < ms \<longrightarrow> (secondsShown ms - 1) * 1000 < ms \<and> ms \<le> secondsShown ms * 1000) \<and>
   (ms \<le> 0 \<longrightarrow> secondsShown ms = 0)"
  using secondsShown_ceiling [of ms]
  by (auto simp: updateUI_elNext fmtCountdown_text)

text \<open>With 1500 milliseconds left the countdown shows two seconds.\<close>

theorem countdown_rounds_up_witness:
  "running (run [ClickArm (1 / 2), Advance 178500] (initialState demoContainer 1000)) \<and>
   fireAt (run [ClickArm (1 / 2), Advance 178500] (initialState demoContainer 1000)) -
     clock (run [ClickArm (1 / 2), Advance 178500] (initialState demoContainer 1000)) = 1500 \<and>
   secondsShown 1500 = 2 \<and>
   elNext (updateUI (run [ClickArm (1 / 2), Advance 178500] (initialState demoContainer 1000))) =
     Some ''2s''"
proof -
  let ?s = "run [ClickArm (1 / 2), Advance 178500] (initialState demoContainer 1000)"
  have a: "running ?s" "fireAt ?s = 181000" "scheduledAt ?s = 1000" "clock ?s = 179500"
    by (simp_all add: toggle_def start_def scheduleNext_running randInt_values)
  have b: "elNext ?s \<noteq> None"
    by (simp add: eval_defs)
  have c: "secondsShown 1500 = 2"
    by (simp add: secondsShown_def)
  from a b c countdown_rounds_up [of ?s 1500] show ?thesis
    by (simp add: countdownText_def showInt_def showNat.simps)
qed

text \<open>
  With 1500 milliseconds left the floored countdown of the specification would be one
  second; the refresh tick shows two.
\<close>

theorem countdown_floored_counterexample:
  "running (run [ClickArm (1 / 2), Advance 178500] (initialState demoContainer 1000)) \<and>
   fireAt (run [ClickArm (1 / 2), Advance 178500] (initialState demoContainer 1000)) \<noteq> 0 \<and>
   scheduledAt (run [ClickArm (1 / 2), Advance 178500] (initialState demoContainer 1000)) \<noteq> 0 \<and>
   fireAt (run [ClickArm (1 / 2), Advance 178500] (initialState demoContainer 1000)) -
     clock (run [ClickArm (1 / 2), Advance 178500] (initialState demoContainer 1000)) = 1500 \<and>
   countdownFloored 1500 = ''1s'' \<and>
   elNext (run [ClickArm (1 / 2), Advance 178500, Fire 1] (initialState demoContainer 1000)) =
     Some ''2s''"
  by (simp add: eval_defs fmtCountdown_def countdownFloored_def showInt_def showNat.simps)

section \<open>A scheduled play that fails\<close>

lemma resumed_rejected:
  "timeoutCallbackResumed g (Rejected e) u s =
     (if running s \<and> g = gen s
      then scheduleNext False u (s\<lparr>warnings := warnings s @ [(''Scheduled play failed:'', e)]\<rparr>)
      else s\<lparr>warnings := warnings s @ [(''Scheduled play failed:'', e)]\<rparr>)"
  by (simp add: timeoutCallbackResumed_def playScheduledOnceSettled_def Let_def)

lemma resumed_fulfilled:
  "timeoutCallbackResumed g Fulfilled u s =
     (if running s \<and> g = gen s
      then scheduleNext False u (s\<lparr>lastRandomAt := Some (clock s)\<rparr>)
      else s\<lparr>lastRandomAt := Some (clock s)\<rparr>)"
  by (simp add: timeoutCallbackResumed_def playScheduledOnceSettled_def Let_def)

lemma ownedTimeouts_log:
  "ownedTimeouts (s\<lparr>warnings := w\<rparr>) = ownedTimeouts s"
  "ownedTimeouts (s\<lparr>lastRandomAt := l\<rparr>) = ownedTimeouts s"
  "ownedTimeouts (s\<lparr>awaiting := a\<rparr>) = ownedTimeouts s"
  by (simp_all add: ownedTimeouts_def pendingTimeouts_def)

text \<open>
  Claim C4, as the code has it. When the play promise of a scheduled play is rejected, the
  error is caught inside \<open>playScheduledOnce\<close>: a warning is logged, the time of the last
  scheduled play stays as it is, and the callback goes on as after a play that
  succeeded. If the widget is still running and the generation is the one the callback
  captured, it arms the next schedule, the same one a fulfilled play would arm; if the
  widget was stopped or the schedule was reset in the meantime, it arms nothing. In every
  run, a rejected play of the current generation leaves exactly one timeout pending.
\<close>

theorem failed_play_rearms:
  "warnings (timeoutCallbackResumed g (Rejected e) u s) =
     warnings s @ [(''Scheduled play failed:'', e)] \<and>
   lastRandomAt (timeoutCallbackResumed g (Rejected e) u s) = lastRandomAt s \<and>
   (running s \<and> g = gen s \<and> ownedTimeouts s \<longrightarrow>
      pendingTimeouts (timeoutCallbackResumed g (Rejected e) u s) =
        [(nextId s, Timeout (clock s + randInt (minSec s) (maxSec s) u * 1000) (gen s + 1))] \<and>
      scheduledAt (timeoutCallbackResumed g (Rejected e) u s) = clock s \<and>
      fireAt (timeoutCallbackResumed g (Rejected e) u s) =
        clock s + randInt (minSec s) (maxSec s) u * 1000 \<and>
      pendingTimeouts (timeoutCallbackResumed g (Rejected e) u s) =
        pendingTimeouts (timeoutCallbackResumed g Fulfilled u s)) \<and>
   (\<not> (running s \<and> g = gen s) \<longrightarrow>
      timeoutCallbackResumed g (Rejected e) u s =
        s\<lparr>warnings := warnings s @ [(''Scheduled play failed:'', e)]\<rparr>) \<and>
   (n < length (awaiting (run es (initialState c now))) \<and>
    awaiting (run es (initialState c now)) ! n = SchedPlay (gen (run es (initialState c now))) \<and>
    running (run es (initialState c now)) \<longrightarrow>
      length (pendingTimeouts (settle n (Rejected e) u (run es (initialState c now)))) = 1)"
proof (intro conjI impI)
  show "warnings (timeoutCallbackResumed g (Rejected e) u s) =
     warnings s @ [(''Scheduled play failed:'', e)]"
    by (simp add: resumed_rejected)
  show "lastRandomAt (timeoutCallbackResumed g (Rejected e) u s) = lastRandomAt s"
    by (simp add: resumed_rejected)
next
  assume a: "running s \<and> g = gen s \<and> ownedTimeouts s"
  then show "pendingTimeouts (timeoutCallbackResumed g (Rejected e) u s) =
        [(nextId s, Timeout (clock s + randInt (minSec s) (maxSec s) u * 1000) (gen s + 1))]"
    by (simp add: resumed_rejected scheduleNext_pending ownedTimeouts_log)
  from a show "pendingTimeouts (timeoutCallbackResumed g (Rejected e) u s) =
        pendingTimeouts (timeoutCallbackResumed g Fulfilled u s)"
    by (simp add: resumed_rejected resumed_fulfilled scheduleNext_pending ownedTimeouts_log)
  from a show "scheduledAt (timeoutCallbackResumed g (Rejected e) u s) = clock s"
    "fireAt (timeoutCallbackResumed g (Rejected e) u s) =
        clock s + randInt (minSec s) (maxSec s) u * 1000"
    by (simp_all add: resumed_rejected scheduleNext_schedule)
next
  assume "\<not> (running s \<and> g = gen s)"
  then show "timeoutCallbackResumed g (Rejected e) u s =
        s\<lparr>warnings := warnings s @ [(''Scheduled play failed:'', e)]\<rparr>"
    by (auto simp: resumed_rejected)
next
  let ?s = "run es (initialState c now)"
  let ?s1 = "?s\<lparr>awaiting := take n (awaiting ?s) @ drop (Suc n) (awaiting ?s)\<rparr>"
  assume a: "n < length (awaiting ?s) \<and> awaiting ?s ! n = SchedPlay (gen ?s) \<and> running ?s"
  have "ownedTimeouts ?s"
    by (rule scheduleInv_owned) (rule reachable_inv)
  then have "ownedTimeouts ?s1"
    by (simp add: ownedTimeouts_log)
  with a show "length (pendingTimeouts (settle n (Rejected e) u ?s)) = 1"
    by (simp add: settle_def resumed_rejected scheduleNext_pending ownedTimeouts_log)
qed

text \<open>The first scheduled play of a run is rejected; the next schedule is armed all the same.\<close>

theorem failed_play_rearms_witness:
  "awaiting (run [ClickArm (1 / 2), Advance 180000, Fire 2] (initialState demoContainer 1000)) =
     [SchedPlay 1] \<and>
   gen (run [ClickArm (1 / 2), Advance 180000, Fire 2] (initialState demoContainer 1000)) = 1 \<and>
   running (run [ClickArm (1 / 2), Advance 180000, Fire 2] (initialState demoContainer 1000)) \<and>
   length (pendingTimeouts (settle 0 (Rejected ''NotAllowedError'') (1 / 4)
     (run [ClickArm (1 / 2), Advance 180000, Fire 2] (initialState demoContainer 1000)))) = 1"
proof -
  let ?s = "run [ClickArm (1 / 2), Advance 180000, Fire 2] (initialState demoContainer 1000)"
  have a: "awaiting ?s = [SchedPlay 1]" "gen ?s = 1" "running ?s"
    by (simp_all add: eval_defs)
  with failed_play_rearms [of 1 "''NotAllowedError''" "1 / 4" ?s 0
      "[ClickArm (1 / 2), Advance 180000, Fire 2]" demoContainer 1000]
  show ?thesis by simp
qed

text \<open>
  When the timer has fired, no timeout is pending and the callback waits for the play
  promise. The promise is rejected, and a new timeout is pending, with no click in between.
\<close>

theorem failed_play_counterexample:
  "pendingTimeouts (run [ClickArm (1 / 2), Advance 180000, Fire 2]
     (initialState demoContainer 1000)) = [] \<and>
   awaiting (run [ClickArm (1 / 2), Advance 180000, Fire 2]
     (initialState demoContainer 1000)) = [SchedPlay 1] \<and>
   pendingTimeouts (run [ClickArm (1 / 2), Advance 180000, Fire 2,
       Settle 0 (Rejected ''NotAllowedError'') (1 / 4)]
     (initialState demoContainer 1000)) = [(3, Timeout 301000 2)] \<and>
   warnings (run [ClickArm (1 / 2), Advance 180000, Fire 2,
       Settle 0 (Rejected ''NotAllowedError'') (1 / 4)]
     (initialState demoContainer 1000)) = [(''Scheduled play failed:'', ''NotAllowedError'')] \<and>
   fireAt (run [ClickArm (1 / 2), Advance 180000, Fire 2,
       Settle 0 (Rejected ''NotAllowedError'') (1 / 4)]
     (initialState demoContainer 1000)) = 301000"
  by (simp add: eval_defs pendingTimeouts_def isTimeout_def)

section \<open>Stale callbacks\<close>

lemma timeoutCallback_stale:
  assumes "g < gen s"
  shows "timeoutCallback g s = s"
  using assms by (simp add: timeoutCallback_def)

text \<open>
  Claim C1. Let \<open>stop\<close> be called in a state reached by any run (a click on the button of
  a running widget calls it). Then the widget is not running, the generation has moved
  on, the schedule fields are cleared and no timeout is pending. A timeout callback that
  fires afterwards does nothing: at once because the widget is not running, and, for a
  callback that captured a generation from before the stop, at any later time, whatever
  happened in between, because its generation is no longer the current one. As long as
  the start button is not clicked again, the widget stays stopped, no timeout is pending
  and no scheduled play happens, however much time passes.
\<close>

theorem stop_cancels_schedule:
  "(let s = run es0 (initialState c now); s' = stop s in
      (running s \<longrightarrow> step (ClickArm u) s = s') \<and>
      \<not> running s' \<and> gen s' = gen s + 1 \<and> scheduledAt s' = 0 \<and> fireAt s' = 0 \<and>
      pendingTimeouts s' = [] \<and>
      timeoutCallback g s' = s' \<and>
      (g \<le> gen s \<longrightarrow> timeoutCallback g (run es s') = run es s') \<and>
      (list_all (\<lambda>e. \<not> isArm e) es \<longrightarrow>
         \<not> running (run es s') \<and> pendingTimeouts (run es s') = [] \<and>
         scheduledPlays (run es s') = scheduledPlays s))"
proof -
  let ?s = "run es0 (initialState c now)"
  let ?s' = "stop ?s"
  have owned: "ownedTimeouts ?s"
    by (rule scheduleInv_owned) (rule reachable_inv)
  have p: "pendingTimeouts ?s' = []"
    using owned by (rule stop_pending)
  have stale: "timeoutCallback g (run es ?s') = run es ?s'" if "g \<le> gen ?s"
  proof -
    have "gen ?s' \<le> gen (run es ?s')" by (rule run_gen_mono)
    with that have "g < gen (run es ?s')" by simp
    then show ?thesis by (rule timeoutCallback_stale)
  qed
  have quiet: "\<not> running (run es ?s') \<and> pendingTimeouts (run es ?s') = [] \<and>
      scheduledPlays (run es ?s') = scheduledPlays ?s"
    if "list_all (\<lambda>e. \<not> isArm e) es"
  proof -
    have r: "\<not> running (run es ?s') \<and> scheduledPlays (run es ?s') = scheduledPlays ?s'"
      using that by (intro run_stopped) simp_all
    have "scheduleInv (run es ?s')"
      using owned by (intro run_inv stop_inv)
    with r have "pendingTimeouts (run es ?s') = []"
      by (cases "pendingTimeouts (run es ?s')") (auto simp: scheduleInv_def)
    with r show ?thesis by simp
  qed
  show ?thesis
    using p stale quiet by (simp add: Let_def toggle_def timeoutCallback_def)
qed

text \<open>
  A schedule is armed for time 181000 and the widget is stopped; time passes beyond it,
  and the callback that captured generation 1 does nothing.
\<close>

theorem stop_cancels_schedule_witness:
  "pendingTimeouts (run [ClickArm (1 / 2)] (initialState demoContainer 1000)) =
     [(2, Timeout 181000 1)] \<and>
   gen (run [ClickArm (1 / 2)] (initialState demoContainer 1000)) = 1 \<and>
   timeoutCallback 1 (run [Advance 400000, ClickExpand 0, Fire 2, ClickPlayNow]
     (stop (run [ClickArm (1 / 2)] (initialState demoContainer 1000)))) =
     run [Advance 400000, ClickExpand 0, Fire 2, ClickPlayNow]
       (stop (run [ClickArm (1 / 2)] (initialState demoContainer 1000))) \<and>
   scheduledPlays (run [Advance 400000, ClickExpand 0, Fire 2, ClickPlayNow]
     (stop (run [ClickArm (1 / 2)] (initialState demoContainer 1000)))) = 0"
proof -
  let ?s = "run [ClickArm (1 / 2)] (initialState demoContainer 1000)"
  have "ownedTimeouts (initialState demoContainer 1000)"
    by (rule scheduleInv_owned) (rule initialState_inv)
  then have a: "pendingTimeouts ?s = [(2, Timeout 181000 1)]"
    by (simp add: toggle_def start_pending randInt_values)
  have b: "gen ?s = 1" "scheduledPlays ?s = 0"
    by (simp_all add: toggle_def scheduledPlays_def)
  from a b
    stop_cancels_schedule [of "[ClickArm (1 / 2)]" demoContainer 1000 0 1
      "[Advance 400000, ClickExpand 0, Fire 2, ClickPlayNow]"]
  show ?thesis by (simp add: Let_def)
qed

section \<open>One schedule at a time\<close>

lemma chainInv_cong:
  assumes "timers s' = timers s" "timeoutId s' = timeoutId s" "gen s' = gen s"
    "running s' = running s" "nextId s' = nextId s" "awaiting s' = awaiting s"
  shows "chainInv s' = chainInv s"
  using assms scheduleInv_cong [of s' s]
  by (simp add: chainInv_def liveChains_def currentAwaiting_def pendingTimeouts_def)

text \<open>A new generation leaves every suspended callback behind.\<close>

lemma currentAwaiting_newGen:
  assumes "\<forall>p \<in> set (awaiting s). \<forall>g. p = SchedPlay g \<longrightarrow> g \<le> gen s"
    "awaiting s' = awaiting s" "gen s' = gen s + 1"
  shows "currentAwaiting s' = []"
  using assms by (auto simp: currentAwaiting_def filter_empty_conv)

lemma chainInv_newGen:
  assumes "chainInv s" "scheduleInv s'" "awaiting s' = awaiting s" "gen s' = gen s + 1"
  shows "chainInv s'"
proof -
  have old: "\<forall>p \<in> set (awaiting s). \<forall>g. p = SchedPlay g \<longrightarrow> g \<le> gen s"
    using assms(1) by (simp add: chainInv_def)
  then have "currentAwaiting s' = []"
    using assms(3,4) by (rule currentAwaiting_newGen)
  moreover have "length (pendingTimeouts s') \<le> 1"
    using assms(2) by (simp add: scheduleInv_def)
  moreover have "\<forall>p \<in> set (awaiting s'). \<forall>g. p = SchedPlay g \<longrightarrow> g \<le> gen s'"
    using old assms(3,4) by auto
  ultimately show ?thesis
    using assms(2) by (simp add: chainInv_def liveChains_def)
qed

lemma chainInv_scheduleInv: "chainInv s \<Longrightarrow> scheduleInv s"
  by (simp add: chainInv_def)

lemma chainInv_scheduleNext:
  assumes "chainInv s" "running s"
  shows "chainInv (scheduleNext b u s)"
proof (rule chainInv_newGen [OF assms(1)])
  show "scheduleInv (scheduleNext b u s)"
    using assms by (intro scheduleNext_inv scheduleInv_owned chainInv_scheduleInv)
qed (use assms in simp_all)

lemma chainInv_stop:
  assumes "chainInv s"
  shows "chainInv (stop s)"
proof (rule chainInv_newGen [OF assms])
  show "scheduleInv (stop s)"
    using assms by (intro stop_inv scheduleInv_owned chainInv_scheduleInv)
qed simp_all

lemma chainInv_start:
  assumes "chainInv s"
  shows "chainInv (start u s)"
proof (rule chainInv_newGen [OF assms])
  show "scheduleInv (start u s)"
    using assms by (intro start_inv scheduleInv_owned chainInv_scheduleInv)
qed simp_all

lemma chainInv_window:
  assumes "chainInv s"
  shows "chainInv (expandWindow u s)" "chainInv (shrinkWindow u s)"
proof -
  have w: "chainInv (s\<lparr>minSec := a, maxSec := b\<rparr>)" for a b
    using assms by (simp add: chainInv_cong [of "s\<lparr>minSec := a, maxSec := b\<rparr>" s])
  have u: "chainInv (updateUI t) = chainInv t" for t
    by (rule chainInv_cong) simp_all
  show "chainInv (expandWindow u s)" "chainInv (shrinkWindow u s)"
    using w by (simp_all add: expandWindow_def shrinkWindow_def Let_def u chainInv_scheduleNext)
qed

lemma awaiting_remove_subset:
  "set (take n xs @ drop (Suc n) xs) \<subseteq> set xs"
  by (auto dest: in_set_takeD in_set_dropD)

lemma filter_remove_length:
  "length (filter P (take n xs @ drop (Suc n) xs)) \<le> length (filter P xs)"
proof -
  have "filter P xs = filter P (take n xs @ drop n xs)"
    by (simp only: append_take_drop_id)
  then have a: "length (filter P xs) = length (filter P (take n xs)) + length (filter P (drop n xs))"
    by (simp only: filter_append length_append)
  have "length (filter P (drop (Suc n) xs)) \<le> length (filter P (drop n xs))"
  proof (cases "n < length xs")
    case True
    then have "drop n xs = xs ! n # drop (Suc n) xs"
      by (simp add: Cons_nth_drop_Suc)
    then show ?thesis by simp
  next
    case False
    then show ?thesis by simp
  qed
  with a show ?thesis by simp
qed

lemma chainInv_unawait:
  assumes "chainInv s"
  shows "chainInv (s\<lparr>awaiting := take n (awaiting s) @ drop (Suc n) (awaiting s)\<rparr>)"
    (is "chainInv ?s1")
proof -
  have "scheduleInv ?s1 = scheduleInv s"
    by (rule scheduleInv_cong) simp_all
  moreover have "\<forall>p \<in> set (awaiting ?s1). \<forall>g. p = SchedPlay g \<longrightarrow> g \<le> gen ?s1"
    using assms awaiting_remove_subset [of n "awaiting s"]
    by (auto simp: chainInv_def)
  moreover have "liveChains ?s1 \<le> liveChains s"
    using filter_remove_length [of "\<lambda>p. p = SchedPlay (gen s)" n "awaiting s"]
    by (simp add: liveChains_def currentAwaiting_def pendingTimeouts_def)
  ultimately show ?thesis
    using assms by (simp add: chainInv_def)
qed

lemma chainInv_settle:
  assumes "chainInv s"
  shows "chainInv (settle n out u s)"
proof -
  let ?s1 = "s\<lparr>awaiting := take n (awaiting s) @ drop (Suc n) (awaiting s)\<rparr>"
  have s1: "chainInv ?s1"
    using assms by (rule chainInv_unawait)
  have m: "chainInv (playNowOnlySettled out ?s1)"
    using s1 by (simp add: chainInv_cong [of "playNowOnlySettled out ?s1" ?s1])
  have p: "chainInv (playScheduledOnceSettled out ?s1)"
    using s1 by (simp add: chainInv_cong [of "playScheduledOnceSettled out ?s1" ?s1])
  have r: "chainInv (timeoutCallbackResumed g out u ?s1)" for g
    using p by (simp add: timeoutCallbackResumed_def Let_def chainInv_scheduleNext)
  show ?thesis
    using assms m r by (simp add: settle_def Let_def split: pending.splits)
qed

lemma chainInv_fire:
  assumes "chainInv s"
  shows "chainInv (fire i s)"
proof (cases "map_of (timers s) i")
  case None
  then show ?thesis using assms by (simp add: fire_def)
next
  case (Some t)
  show ?thesis
  proof (cases t)
    case Interval
    have "chainInv (updateUI s) = chainInv s"
      by (rule chainInv_cong) simp_all
    with Some Interval assms show ?thesis by (simp add: fire_def)
  next
    case (Timeout due g)
    let ?s1 = "s\<lparr>timers := clearTimer (Some i) (timers s)\<rparr>"
    have mem: "(i, Timeout due g) \<in> set (pendingTimeouts s)"
      using Some Timeout by (auto simp: pendingTimeouts_def isTimeout_def dest: map_of_SomeD)
    have inv: "scheduleInv s" using assms by (rule chainInv_scheduleInv)
    then have one: "pendingTimeouts s = [(i, Timeout due g)]"
      using mem by (cases "pendingTimeouts s") (auto simp: scheduleInv_def)
    then have none: "pendingTimeouts ?s1 = []"
      by (simp add: pendingTimeouts_def pendingTimeouts_clearTimer) (simp add: clearTimer_def)
    from one assms have cur: "currentAwaiting s = []"
      by (simp add: chainInv_def liveChains_def)
    have inv1: "scheduleInv ?s1"
      using inv by (rule scheduleInv_clearTimer)
    have old: "\<forall>p \<in> set (awaiting s). \<forall>g. p = SchedPlay g \<longrightarrow> g \<le> gen s"
      using assms by (simp add: chainInv_def)
    have c1: "chainInv ?s1"
      using inv1 old none cur by (simp add: chainInv_def liveChains_def currentAwaiting_def)
    have "chainInv (playScheduledOnce k ?s1)" if "k = gen s" for k
    proof -
      have "scheduleInv (playScheduledOnce k ?s1) = scheduleInv ?s1"
        by (rule scheduleInv_cong) simp_all
      moreover have "pendingTimeouts (playScheduledOnce k ?s1) = []"
        using none by (simp add: pendingTimeouts_def)
      moreover have "currentAwaiting (playScheduledOnce k ?s1) = [SchedPlay k]"
        using cur that by (simp add: currentAwaiting_def)
      ultimately show ?thesis
        using inv1 old that by (auto simp: chainInv_def liveChains_def)
    qed
    with c1 Some Timeout assms show ?thesis
      by (simp add: fire_def timeoutCallback_def)
  qed
qed

lemma chainInv_playNow:
  assumes "chainInv s"
  shows "chainInv (playNowOnly s)"
proof -
  have "scheduleInv (playNowOnly s) = scheduleInv s"
    by (rule scheduleInv_cong) simp_all
  with assms show ?thesis
    by (auto simp: chainInv_def liveChains_def currentAwaiting_def pendingTimeouts_def)
qed

lemma chainInv_step:
  assumes "chainInv s"
  shows "chainInv (step e s)"
proof (cases e)
  case (ClickArm u)
  then show ?thesis using assms by (simp add: toggle_def chainInv_stop chainInv_start)
next
  case ClickPlayNow
  then show ?thesis using assms by (simp add: chainInv_playNow)
next
  case (ClickExpand u)
  then show ?thesis using assms by (simp add: chainInv_window)
next
  case (ClickShrink u)
  then show ?thesis using assms by (simp add: chainInv_window)
next
  case (Advance d)
  then show ?thesis
    using assms by (simp add: chainInv_cong [of "s\<lparr>clock := clock s + int d\<rparr>" s])
next
  case (Fire i)
  then show ?thesis using assms by (simp add: chainInv_fire)
next
  case (Settle n out u)
  then show ?thesis using assms by (simp add: chainInv_settle)
next
  case PageHide
  have "chainInv (stop s)" using assms by (rule chainInv_stop)
  then show ?thesis
    using PageHide by (simp add: chainInv_cong [of "(stop s)\<lparr>audioPaused := True\<rparr>" "stop s"])
qed

lemma chainInv_run: "chainInv s \<Longrightarrow> chainInv (run es s)"
  by (induction es arbitrary: s) (simp_all add: chainInv_step)

lemma chainInv_initial: "chainInv (initialState c now)"
  by (simp add: chainInv_def initialState_inv liveChains_def currentAwaiting_def pendingTimeouts_def)

lemma chainInv_reachable: "chainInv (run es (initialState c now))"
  by (rule chainInv_run) (rule chainInv_initial)

text \<open>
  Claim C3. In every state reached by a run at most one timeout is pending, it belongs to
  the current generation, and at most one chain of scheduled plays is alive.
  \<open>clearSchedule\<close>, with which every arming begins, leaves no timeout pending and moves
  the generation on. Arming twice in succession, by \<open>scheduleNext\<close> while running or by
  \<open>start\<close> twice, leaves exactly one pending timeout, that of the second call; the
  generation captured by the first call is then stale, and its callback does nothing
  whenever it fires later.
\<close>

theorem one_schedule_at_a_time:
  "(let s = run es (initialState c now) in
      chainInv s \<and> scheduleInv s \<and> length (pendingTimeouts s) \<le> 1 \<and> liveChains s \<le> 1 \<and>
      pendingTimeouts (clearSchedule s) = [] \<and> gen (clearSchedule s) = gen s + 1 \<and>
      (running s \<longrightarrow>
        (let s1 = scheduleNext b1 u1 s; s2 = scheduleNext b2 u2 s1 in
           pendingTimeouts s1 = [(nextId s, Timeout (fireAt s1) (gen s1))] \<and>
           pendingTimeouts s2 = [(nextId s + 1, Timeout (fireAt s2) (gen s2))] \<and>
           gen s2 = gen s1 + 1 \<and> liveChains s2 = 1 \<and>
           timeoutCallback (gen s1) (run es' s2) = run es' s2)) \<and>
      (let s1 = start u1 s; s2 = start u2 s1 in
         pendingTimeouts s1 = [(nextId s + 1, Timeout (fireAt s1) (gen s1))] \<and>
         pendingTimeouts s2 = [(nextId s + 3, Timeout (fireAt s2) (gen s2))] \<and>
         gen s2 = gen s1 + 1 \<and> liveChains s2 = 1 \<and>
         timeoutCallback (gen s1) (run es' s2) = run es' s2))"
proof -
  let ?s = "run es (initialState c now)"
  have chain: "chainInv ?s" by (rule chainInv_reachable)
  then have inv: "scheduleInv ?s" by (rule chainInv_scheduleInv)
  then have owned: "ownedTimeouts ?s" by (rule scheduleInv_owned)
  have stale: "timeoutCallback g (run es' t) = run es' t" if "g < gen t" for g t
  proof -
    have "gen t \<le> gen (run es' t)" by (rule run_gen_mono)
    with that have "g < gen (run es' t)" by simp
    then show ?thesis by (rule timeoutCallback_stale)
  qed
  have live: "liveChains t = 1" if "chainInv t" "pendingTimeouts t = [x]" for t x
    using that by (simp add: chainInv_def liveChains_def)
  have twice: "pendingTimeouts (scheduleNext b1 u1 ?s) =
        [(nextId ?s, Timeout (fireAt (scheduleNext b1 u1 ?s)) (gen (scheduleNext b1 u1 ?s)))] \<and>
      pendingTimeouts (scheduleNext b2 u2 (scheduleNext b1 u1 ?s)) =
        [(nextId ?s + 1, Timeout (fireAt (scheduleNext b2 u2 (scheduleNext b1 u1 ?s)))
           (gen (scheduleNext b2 u2 (scheduleNext b1 u1 ?s))))] \<and>
      gen (scheduleNext b2 u2 (scheduleNext b1 u1 ?s)) = gen (scheduleNext b1 u1 ?s) + 1 \<and>
      liveChains (scheduleNext b2 u2 (scheduleNext b1 u1 ?s)) = 1 \<and>
      timeoutCallback (gen (scheduleNext b1 u1 ?s))
        (run es' (scheduleNext b2 u2 (scheduleNext b1 u1 ?s))) =
        run es' (scheduleNext b2 u2 (scheduleNext b1 u1 ?s))"
    if r: "running ?s"
  proof -
    let ?s1 = "scheduleNext b1 u1 ?s"
    let ?s2 = "scheduleNext b2 u2 ?s1"
    have c1: "chainInv ?s1"
      using chain r by (rule chainInv_scheduleNext)
    then have o1: "ownedTimeouts ?s1"
      by (intro scheduleInv_owned chainInv_scheduleInv)
    have r1: "running ?s1" using r by simp
    have c2: "chainInv ?s2"
      using c1 r1 by (rule chainInv_scheduleNext)
    have p2: "pendingTimeouts ?s2 = [(nextId ?s + 1, Timeout (fireAt ?s2) (gen ?s2))]"
      using r o1 r1 by (simp add: scheduleNext_pending scheduleNext_schedule)
    have "liveChains ?s2 = 1"
      using c2 p2 by (rule live)
    then show ?thesis
      using owned r o1 r1
      by (simp add: scheduleNext_pending scheduleNext_schedule stale)
  qed
  have starts: "pendingTimeouts (start u1 ?s) =
        [(nextId ?s + 1, Timeout (fireAt (start u1 ?s)) (gen (start u1 ?s)))] \<and>
      pendingTimeouts (start u2 (start u1 ?s)) =
        [(nextId ?s + 3, Timeout (fireAt (start u2 (start u1 ?s))) (gen (start u2 (start u1 ?s))))] \<and>
      gen (start u2 (start u1 ?s)) = gen (start u1 ?s) + 1 \<and>
      liveChains (start u2 (start u1 ?s)) = 1 \<and>
      timeoutCallback (gen (start u1 ?s)) (run es' (start u2 (start u1 ?s))) =
        run es' (start u2 (start u1 ?s))"
  proof -
    have c1: "chainInv (start u1 ?s)"
      using chain by (rule chainInv_start)
    then have o1: "ownedTimeouts (start u1 ?s)"
      by (intro scheduleInv_owned chainInv_scheduleInv)
    have c2: "chainInv (start u2 (start u1 ?s))"
      using c1 by (rule chainInv_start)
    have p2: "pendingTimeouts (start u2 (start u1 ?s)) =
        [(nextId ?s + 3, Timeout (fireAt (start u2 (start u1 ?s))) (gen (start u2 (start u1 ?s))))]"
      using o1 by (simp add: start_pending start_schedule)
    have "liveChains (start u2 (start u1 ?s)) = 1"
      using c2 p2 by (rule live)
    then show ?thesis
      using owned o1 by (simp add: start_pending start_schedule stale)
  qed
  from inv have "length (pendingTimeouts ?s) \<le> 1"
    by (simp add: scheduleInv_def)
  moreover from chain have "liveChains ?s \<le> 1"
    by (simp add: chainInv_def)
  moreover have "pendingTimeouts (clearSchedule ?s) = []"
    using owned by (rule clearSchedule_pending)
  ultimately show ?thesis
    using chain inv twice starts by (simp add: Let_def)
qed

text \<open>
  Two calls of \<open>start\<close> in the initial state: the timeout of the second call alone is
  pending. A window change while a callback waits for its play promise: one chain.
\<close>

theorem one_schedule_at_a_time_witness:
  "pendingTimeouts (start (1 / 2) (initialState demoContainer 1000)) = [(2, Timeout 181000 1)] \<and>
   pendingTimeouts (start (1 / 4) (start (1 / 2) (initialState demoContainer 1000))) =
     [(4, Timeout 121000 2)] \<and>
   liveChains (start (1 / 4) (start (1 / 2) (initialState demoContainer 1000))) = 1 \<and>
   timeoutCallback 1 (run [Advance 400000] (start (1 / 4) (start (1 / 2) (initialState demoContainer 1000)))) =
     run [Advance 400000] (start (1 / 4) (start (1 / 2) (initialState demoContainer 1000))) \<and>
   liveChains (run [ClickArm (1 / 2), Advance 180000, Fire 2, ClickExpand (1 / 4)]
     (initialState demoContainer 1000)) \<le> 1"
proof -
  have r: "randInt 60 300 (1 / 2) = 180" "randInt 60 300 (1 / 4) = 120"
    by (simp_all add: randInt_values)
  from r
    one_schedule_at_a_time [of "[]" demoContainer 1000 True "1 / 2" True "1 / 4"
      "[Advance 400000]"]
    one_schedule_at_a_time [of "[ClickArm (1 / 2), Advance 180000, Fire 2, ClickExpand (1 / 4)]"
      demoContainer 1000 True "1 / 2" True "1 / 4" "[]"]
  show ?thesis
    by (simp add: Let_def start_schedule)
qed

end
